theory Spec2Isabelle
  imports Main "HOL-Library.Sublist" "HOL-Library.AList"
begin

section \<open>Path normalization (FileSystem.js, \<open>isAbsolutePath\<close> .. \<open>_normalizePath\<close>)\<close>

text \<open>
  JavaScript strings are modelled as \<^typ>\<open>string\<close>, indexed from 0. An out-of-range
  index \<open>path[i]\<close> is \<open>undefined\<close> in JavaScript; \<open>charAt\<close> returns \<open>None\<close> there, which
  is different from every character.
\<close>

definition charAt :: "string \<Rightarrow> nat \<Rightarrow> char option" where
  "charAt s i = (if i < length s then Some (s ! i) else None)"

text \<open>\<open>FileSystem.isAbsolutePath\<close>: \<open>fullPath[0] === "/" || fullPath[1] === ":"\<close>.\<close>

definition isAbsolutePath :: "string \<Rightarrow> bool" where
  "isAbsolutePath fullPath =
     (charAt fullPath 0 = Some CHR ''/'' \<or> charAt fullPath 1 = Some CHR '':'')"

text \<open>\<open>_appendTrailingSlash\<close>: \<open>path[path.length - 1]\<close> of the empty string is
  \<open>undefined\<close>, so the empty path gets a slash as well.\<close>

definition appendTrailingSlash :: "string \<Rightarrow> string" where
  "appendTrailingSlash path =
     (if path = [] \<or> last path \<noteq> CHR ''/'' then path @ ''/'' else path)"

text \<open>\<open>path.replace(_DUPLICATED_SLASH_RE, "/")\<close> with the global pattern \<open>/\/{2,}/g\<close>:
  every maximal run of two or more slashes becomes one slash.\<close>

fun removeDuplicatedSlashes :: "string \<Rightarrow> string" where
  "removeDuplicatedSlashes [] = []"
| "removeDuplicatedSlashes [c] = [c]"
| "removeDuplicatedSlashes (c # d # cs) =
     (if c = CHR ''/'' \<and> d = CHR ''/'' then removeDuplicatedSlashes (d # cs)
      else c # removeDuplicatedSlashes (d # cs))"

text \<open>\<open>path.search(_DUPLICATED_SLASH_RE) === 0\<close>: the leftmost match of the pattern
  starts at index 0 exactly when the path begins with two slashes.\<close>

definition startsWithDuplicatedSlash :: "string \<Rightarrow> bool" where
  "startsWithDuplicatedSlash path = (take 2 path = ''//'')"

text \<open>\<open>path.indexOf("..") !== -1\<close>: the two-character string occurs somewhere.\<close>

fun containsDotDot :: "string \<Rightarrow> bool" where
  "containsDotDot [] = False"
| "containsDotDot [c] = False"
| "containsDotDot (c # d # cs) =
     ((c = CHR ''.'' \<and> d = CHR ''.'') \<or> containsDotDot (d # cs))"

text \<open>\<open>path.split("/")\<close>: one more segment than there are slashes; the empty string
  splits into one empty segment.\<close>

fun splitSlash :: "string \<Rightarrow> string list" where
  "splitSlash [] = [[]]"
| "splitSlash (c # cs) =
     (if c = CHR ''/'' then [] # splitSlash cs
      else (c # hd (splitSlash cs)) # tl (splitSlash cs))"

text \<open>\<open>segments.join("/")\<close>.\<close>

fun joinSlash :: "string list \<Rightarrow> string" where
  "joinSlash [] = []"
| "joinSlash [s] = s"
| "joinSlash (s # t # ss) = s @ CHR ''/'' # joinSlash (t # ss)"

text \<open>The two \<open>throw new Error(...)\<close> of \<open>_normalizePath\<close>; each carries the path of its
  message ("Paths must be absolute: '...'", "Invalid absolute path: '...'"). \<open>TypeError\<close>
  is what JavaScript raises when a property of \<open>undefined\<close> is read.\<close>

datatype error = AbsolutePathRequired string | InvalidPath string | TypeError string

text \<open>
  The loop \<open>for (i = 1; i < segments.length; i++)\<close> over the segments. \<open>path\<close> is only
  carried for the error message. \<open>segments.splice(i - 1, 2)\<close> removes the segments
  \<open>i - 1\<close> and \<open>i\<close>; \<open>i -= 2\<close> followed by the loop's \<open>i++\<close> continues at \<open>i - 2 + 1\<close>.
\<close>

function removeDotDotSegments :: "string \<Rightarrow> string list \<Rightarrow> nat \<Rightarrow> error + string list" where
  "removeDotDotSegments path segments i =
     (if i < length segments then
        (if segments ! i = ''..'' then
           (if i < 2 then Inl (InvalidPath path)
            else removeDotDotSegments path
                   (take (i - 1) segments @ drop (i + 1) segments) (i - 2 + 1))
         else removeDotDotSegments path segments (i + 1))
      else Inr segments)"
  by pat_completeness auto
termination
  by (relation "measure (\<lambda>(path, segments, i). 2 * length segments - i)") auto

text \<open>The equation of the loop is unfolded by hand where needed.\<close>

declare removeDotDotSegments.simps [simp del]

text \<open>\<open>FileSystem.prototype._normalizePath\<close>; \<open>normalizeUNCPaths\<close> is the backend's
  capability flag \<open>this._impl.normalizeUNCPaths\<close>.\<close>

definition normalizePath :: "bool \<Rightarrow> string \<Rightarrow> bool \<Rightarrow> error + string" where
  "normalizePath normalizeUNCPaths path isDirectory =
     (if \<not> isAbsolutePath path then Inl (AbsolutePathRequired path)
      else
        let isUNCPath = (normalizeUNCPaths \<and> startsWithDuplicatedSlash path);
            path1 = removeDuplicatedSlashes path
        in case (if containsDotDot path1
                 then map_sum id joinSlash (removeDotDotSegments path1 (splitSlash path1) 1)
                 else Inr path1) of
             Inl e \<Rightarrow> Inl e
           | Inr path2 \<Rightarrow>
               let path3 = (if isDirectory then appendTrailingSlash path2 else path2)
               in Inr (if isUNCPath then CHR ''/'' # path3 else path3))"


section \<open>Entries, the file index and the state of a FileSystem object\<close>

text \<open>
  \<open>File\<close> and \<open>Directory\<close> objects are compared by identity in the source
  (\<open>entry !== watchedRoot.entry\<close>, the index returning the object it stored). An entry
  handle is a record with an object identity \<open>eid\<close>, drawn from the allocation counter
  \<open>nextId\<close> of the state when the constructor runs. The operations modelled here never
  rename an entry, so \<open>fullPath\<close> is a field of the handle.
\<close>

datatype entryConstructor = File | Directory

record entry =
  eid :: nat
  fullPath :: string
  constructedBy :: entryConstructor

definition isFile :: "entry \<Rightarrow> bool" where
  "isFile e = (constructedBy e = File)"

text \<open>A stat object. \<open>mtime\<close> is what \<open>stat.mtime.getTime()\<close> returns: a number of
  milliseconds, or \<open>NaN\<close> for an invalid date, which is \<open>None\<close> here.\<close>

record stats =
  mtime :: "int option"
  size' :: nat

text \<open>Modelled from the spec: the cached data of an entry (classes \<open>File\<close> and
  \<open>Directory\<close>, "cached stat" and "cached contents"), kept per object identity;
  \<open>_clearCachedData\<close> drops both.\<close>

record cachedData =
  stat :: "stats option"
  contents :: "entry list option"

definition noCachedData :: cachedData where
  "noCachedData = \<lparr>stat = None, contents = None\<rparr>"

text \<open>A watched root \<open>{entry, filter, active}\<close>. The filter is a function of the caller
  and stays of an arbitrary type \<open>'f\<close>: where the source applies it, what it answers
  comes with the call that makes the source do so. \<open>rid\<close> is the identity of the root
  object, which the completion callback of \<open>watch\<close> holds on to.\<close>

record 'f watchedRoot =
  rid :: nat
  rootEntry :: entry
  filter' :: 'f
  active :: bool

text \<open>
  The callbacks handed to \<open>_enqueueWatchRequest\<close> are closures; each constructor below
  is one closure of the source with the variables it captures. User callbacks are of an
  arbitrary type \<open>'c\<close>; an omitted one (\<open>callback || function () {}\<close>) is \<open>None\<close>.
\<close>

datatype 'c requestCb =
    WatchRootCb entry nat "'c option"
  | UnwatchRootCb entry "'c option"
  | UnwatchAllCb entry
  | WatchChildCb nat
  | UnwatchChildCb entry nat

text \<open>
  A request \<open>{fn, cb}\<close>. The function \<open>fn\<close> is one of the two closures that
  \<open>_watchOrUnwatchEntry\<close> builds; it captures \<open>shouldWatch\<close> (as \<open>commandName\<close>), the
  entry, and the watched root, of which it reads the entry and the filter. \<open>Request\<close> is
  a request on the entry of the root itself.
\<close>

datatype 'c request =
  RequestOf (shouldWatch: bool) (requestEntry: entry) (requestRoot: entry) (requestCb: "'c requestCb")

abbreviation Request :: "bool \<Rightarrow> entry \<Rightarrow> 'c requestCb \<Rightarrow> 'c request" where
  "Request b e cb \<equiv> RequestOf b e e cb"

text \<open>
  What passes between the object and the outside, in order: events it triggers, user
  callbacks it applies, calls into the backend and the \<open>Directory\<close> class, the
  continuation of a watch request being applied, console output. \<open>RequestStarted\<close> is
  the call of \<open>request.fn\<close>, which on a recursive backend calls \<open>impl.watchPath\<close> or
  \<open>impl.unwatchPath\<close> with the continuation and otherwise calls \<open>entry.visit\<close>;
  \<open>ImplPathCall\<close> is one of the calls of \<open>impl.watchPath\<close> (\<open>True\<close>) or
  \<open>impl.unwatchPath\<close> that follow the visit. \<open>DirectoryChangeEvent\<close> is the \<open>change\<close>
  event of a directory with its added and removed entries.
\<close>

datatype 'c event =
    ChangeEvent "entry option"
  | DirectoryChangeEvent entry "entry list" "entry list"
  | GetContents entry
  | RequestStarted "'c request"
  | ImplPathCall bool string
  | ContinuationApplied "'c request" "string option"
  | Callback 'c "string option"
  | ImplUnwatchAll
  | ConsoleWarn string
  | ConsoleError string

text \<open>
  The closures of \<open>_handleDirectoryChange\<close>, kept under the identity they get when the
  directory change starts: first the callback given to \<open>directory.getContents\<close>, which
  holds the directory, the stat of the change and the old contents; then, once the
  contents are there, \<open>watchOrUnwatchCallback\<close> with the added and removed entries and
  its \<open>counter\<close>.
\<close>

datatype directoryChange =
    AwaitingContents entry "stats option" "entry list"
  | CountingDown entry "stats option" "entry list" "entry list" int

text \<open>The state: the fields of the FileSystem object, the capability flags of its
  backend, the cached data of the entries, the local variables of the closures that
  are waiting (\<open>requestCount\<close> is \<open>count\<close> of the request function on a non-recursive
  backend), the allocation counter and the trace.\<close>

record ('f, 'c) fileSystem =
  recursiveWatch :: bool
  normalizeUNCPaths :: bool
  index :: "(string \<times> entry) list"
  entryData :: "nat \<Rightarrow> cachedData"
  watchedRoots :: "(string \<times> 'f watchedRoot) list"
  watchRequests :: "'c request list"
  requestCount :: "int option"
  directoryChanges :: "(nat \<times> directoryChange) list"
  externalChanges :: "(string option \<times> stats option) list"
  activeChangeCount :: int
  nextId :: nat
  trace :: "'c event list"

text \<open>The constructor \<open>FileSystem()\<close> followed by \<open>init(impl)\<close>, for a backend with the
  two capability flags.\<close>

definition newFileSystem :: "bool \<Rightarrow> bool \<Rightarrow> ('f, 'c) fileSystem" where
  "newFileSystem recursive unc =
     \<lparr>recursiveWatch = recursive, normalizeUNCPaths = unc, index = [],
      entryData = (\<lambda>_. noCachedData), watchedRoots = [], watchRequests = [],
      requestCount = None, directoryChanges = [],
      externalChanges = [], activeChangeCount = 0, nextId = 0, trace = []\<rparr>"

definition emit :: "'c event \<Rightarrow> ('f, 'c) fileSystem \<Rightarrow> ('f, 'c) fileSystem" where
  "emit ev s = s\<lparr>trace := trace s @ [ev]\<rparr>"

subsection \<open>FileIndex\<close>

text \<open>Modelled from the spec: \<open>FileIndex\<close> is a mapping from canonical path to entry;
  \<open>get\<close> is an exact lookup, \<open>add\<close> inserts the entry under its \<open>fullPath\<close>, \<open>remove\<close>
  deletes the entry, \<open>clear\<close> empties the index and \<open>visitAll\<close> iterates over all
  entries.\<close>

definition getEntry :: "(string \<times> entry) list \<Rightarrow> string \<Rightarrow> entry option" where
  "getEntry idx path = map_of idx path"

definition addEntry :: "entry \<Rightarrow> (string \<times> entry) list \<Rightarrow> (string \<times> entry) list" where
  "addEntry e idx = AList.update (fullPath e) e idx"

definition removeEntry :: "entry \<Rightarrow> (string \<times> entry) list \<Rightarrow> (string \<times> entry) list" where
  "removeEntry e idx = AList.delete (fullPath e) idx"

definition visitAll :: "(entry \<Rightarrow> 's \<Rightarrow> 's) \<Rightarrow> (string \<times> entry) list \<Rightarrow> 's \<Rightarrow> 's" where
  "visitAll visitor idx s = fold (\<lambda>(path, child). visitor child) idx s"

definition clearCachedData :: "entry \<Rightarrow> ('f, 'c) fileSystem \<Rightarrow> ('f, 'c) fileSystem" where
  "clearCachedData e s = s\<lparr>entryData := (entryData s)(eid e := noCachedData)\<rparr>"

definition setStat :: "entry \<Rightarrow> stats option \<Rightarrow> ('f, 'c) fileSystem \<Rightarrow> ('f, 'c) fileSystem" where
  "setStat e st s = s\<lparr>entryData := (entryData s)(eid e := (entryData s (eid e))\<lparr>stat := st\<rparr>)\<rparr>"

text \<open>Modelled from the spec: the \<open>Directory\<close> class is not part of this file. A directory
  has \<open>contents\<close>, an optional cached ordered sequence of child entries, which the class
  sets when it has loaded them.\<close>

definition setContents :: "entry \<Rightarrow> entry list \<Rightarrow> ('f, 'c) fileSystem \<Rightarrow> ('f, 'c) fileSystem" where
  "setContents e cs s =
     s\<lparr>entryData := (entryData s)(eid e := (entryData s (eid e))\<lparr>contents := Some cs\<rparr>)\<rparr>"

subsection \<open>Interning entries\<close>

text \<open>\<open>_getEntryForPath\<close>: the exception of \<open>_normalizePath\<close> leaves before anything is
  changed.\<close>

definition getEntryForPath ::
  "entryConstructor \<Rightarrow> string \<Rightarrow> ('f, 'c) fileSystem \<Rightarrow> error + (entry \<times> ('f, 'c) fileSystem)" where
  "getEntryForPath EntryConstructor path s =
     (let isDirectory = (EntryConstructor = Directory)
      in case normalizePath (normalizeUNCPaths s) path isDirectory of
           Inl e \<Rightarrow> Inl e
         | Inr path' \<Rightarrow>
             (case getEntry (index s) path' of
                Some entry \<Rightarrow> Inr (entry, s)
              | None \<Rightarrow>
                  let entry = \<lparr>eid = nextId s, fullPath = path', constructedBy = EntryConstructor\<rparr>
                  in Inr (entry, s\<lparr>index := addEntry entry (index s), nextId := Suc (nextId s)\<rparr>)))"

definition getFileForPath ::
  "string \<Rightarrow> ('f, 'c) fileSystem \<Rightarrow> error + (entry \<times> ('f, 'c) fileSystem)" where
  "getFileForPath path s = getEntryForPath File path s"

definition getDirectoryForPath ::
  "string \<Rightarrow> ('f, 'c) fileSystem \<Rightarrow> error + (entry \<times> ('f, 'c) fileSystem)" where
  "getDirectoryForPath path s = getEntryForPath Directory path s"

text \<open>\<open>close\<close>: \<open>this._impl.unwatchAll(); this._index.clear();\<close>\<close>

definition close :: "('f, 'c) fileSystem \<Rightarrow> ('f, 'c) fileSystem" where
  "close s = (emit ImplUnwatchAll s)\<lparr>index := []\<rparr>"


subsection \<open>The change coordinator\<close>

text \<open>A JavaScript value is falsy when it is \<open>null\<close>, \<open>undefined\<close> or the empty string;
  \<open>!path\<close> and \<open>if (err)\<close> test this.\<close>

definition truthy :: "string option \<Rightarrow> bool" where
  "truthy v = (v \<noteq> None \<and> v \<noteq> Some [])"

text \<open>\<open>stat && entry._stat && stat.mtime.getTime() === entry._stat.mtime.getTime()\<close>;
  \<open>NaN === NaN\<close> is false.\<close>

definition sameMtime :: "stats option \<Rightarrow> stats option \<Rightarrow> bool" where
  "sameMtime st cached =
     (case st of None \<Rightarrow> False
      | Some a \<Rightarrow>
          (case cached of None \<Rightarrow> False
           | Some b \<Rightarrow> mtime a \<noteq> None \<and> mtime a = mtime b))"

text \<open>
  \<open>_handleDirectoryChange\<close>, up to the point where it returns: it reads the old contents
  (\<open>directory._contents || []\<close>), clears the cached data of the directory and calls
  \<open>directory.getContents\<close> with a callback, which is kept under a new identity until
  \<open>Directory\<close> applies it (\<open>contentsLoaded\<close> below).
\<close>

definition handleDirectoryChange ::
  "entry \<Rightarrow> stats option \<Rightarrow> ('f, 'c) fileSystem \<Rightarrow> ('f, 'c) fileSystem" where
  "handleDirectoryChange directory st s =
     (let oldContents = (case contents (entryData s (eid directory)) of None \<Rightarrow> [] | Some cs \<Rightarrow> cs);
          s1 = clearCachedData directory s
      in emit (GetContents directory)
           (s1\<lparr>directoryChanges :=
                  directoryChanges s1 @ [(nextId s1, AwaitingContents directory st oldContents)],
               nextId := Suc (nextId s1)\<rparr>))"

text \<open>
  \<open>_handleExternalChange\<close>. The exception of \<open>_normalizePath\<close> leaves before anything is
  changed. For a directory the callback given to \<open>_handleDirectoryChange\<close> sets the stat
  and triggers the event later (\<open>directoryChanged\<close> below).
\<close>

definition handleExternalChange ::
  "string option \<Rightarrow> stats option \<Rightarrow> ('f, 'c) fileSystem \<Rightarrow> error + ('f, 'c) fileSystem" where
  "handleExternalChange path st s =
     (if \<not> truthy path then
        Inr (emit (ChangeEvent None) (visitAll clearCachedData (index s) s))
      else
        case normalizePath (normalizeUNCPaths s) (the path) False of
          Inl e \<Rightarrow> Inl e
        | Inr path' \<Rightarrow>
            (case getEntry (index s) path' of
               None \<Rightarrow> Inr s
             | Some entry \<Rightarrow>
                 if isFile entry then
                   (if \<not> sameMtime st (stat (entryData s (eid entry))) then
                      Inr (emit (ChangeEvent (Some entry)) (setStat entry st (clearCachedData entry s)))
                    else Inr s)
                 else Inr (handleDirectoryChange entry st s)))"

text \<open>\<open>this._externalChanges.forEach(...)\<close>: an exception ends the iteration and keeps
  what the earlier elements did.\<close>

fun forEachExternalChange ::
  "(string option \<times> stats option) list \<Rightarrow> ('f, 'c) fileSystem \<Rightarrow> error option \<times> ('f, 'c) fileSystem" where
  "forEachExternalChange [] s = (None, s)"
| "forEachExternalChange (info # infos) s =
     (case handleExternalChange (fst info) (snd info) s of
        Inl e \<Rightarrow> (Some e, s)
      | Inr s' \<Rightarrow> forEachExternalChange infos s')"

text \<open>\<open>_triggerExternalChangesNow\<close>: \<open>this._externalChanges.length = 0\<close> is reached only
  when no element raised.\<close>

definition triggerExternalChangesNow ::
  "('f, 'c) fileSystem \<Rightarrow> error option \<times> ('f, 'c) fileSystem" where
  "triggerExternalChangesNow s =
     (case forEachExternalChange (externalChanges s) s of
        (Some e, s') \<Rightarrow> (Some e, s')
      | (None, s') \<Rightarrow> (None, s'\<lparr>externalChanges := []\<rparr>))"

definition enqueueExternalChange ::
  "string option \<Rightarrow> stats option \<Rightarrow> ('f, 'c) fileSystem \<Rightarrow> error option \<times> ('f, 'c) fileSystem" where
  "enqueueExternalChange path st s =
     (let s1 = s\<lparr>externalChanges := externalChanges s @ [(path, st)]\<rparr>
      in if activeChangeCount s1 = 0 then triggerExternalChangesNow s1 else (None, s1))"

definition beginChange :: "('f, 'c) fileSystem \<Rightarrow> ('f, 'c) fileSystem" where
  "beginChange s = s\<lparr>activeChangeCount := activeChangeCount s + 1\<rparr>"

definition endChange :: "('f, 'c) fileSystem \<Rightarrow> error option \<times> ('f, 'c) fileSystem" where
  "endChange s =
     (let s1 = s\<lparr>activeChangeCount := activeChangeCount s - 1\<rparr>;
          s2 = (if activeChangeCount s1 < 0
                then emit (ConsoleError ''FileSystem _activeChangeCount has fallen below zero!'') s1
                else s1)
      in if activeChangeCount s2 = 0 then triggerExternalChangesNow s2 else (None, s2))"

text \<open>The \<open>change\<close> events of a trace, in the order they were triggered.\<close>

fun changeEvents :: "'c event list \<Rightarrow> entry option list" where
  "changeEvents [] = []"
| "changeEvents (ChangeEvent e # evs) = e # changeEvents evs"
| "changeEvents (DirectoryChangeEvent e added removed # evs) = Some e # changeEvents evs"
| "changeEvents (ev # evs) = changeEvents evs"

subsection \<open>The queue of watch requests\<close>

text \<open>
  \<open>_dequeueWatchRequest\<close> calls \<open>request.fn\<close> of the head with a continuation and returns;
  the call is recorded as \<open>RequestStarted\<close>. On a backend with recursive watching \<open>fn\<close>
  hands the continuation to \<open>impl.watchPath\<close> or \<open>impl.unwatchPath\<close>, which applies it
  later. On another backend \<open>fn\<close> calls \<open>entry.visit\<close>, and applies the continuation
  itself in the callbacks it gives to \<open>visit\<close> and to the backend (\<open>visitDone\<close> and
  \<open>pathDone\<close> below).
\<close>

definition dequeueWatchRequest :: "('f, 'c) fileSystem \<Rightarrow> ('f, 'c) fileSystem" where
  "dequeueWatchRequest s =
     (if length (watchRequests s) > 0 then emit (RequestStarted (hd (watchRequests s))) s else s)"

definition enqueueWatchRequest :: "'c request \<Rightarrow> ('f, 'c) fileSystem \<Rightarrow> ('f, 'c) fileSystem" where
  "enqueueWatchRequest r s =
     (let s1 = s\<lparr>watchRequests := watchRequests s @ [r]\<rparr>
      in if length (watchRequests s1) = 1 then dequeueWatchRequest s1 else s1)"

definition invokeCallback :: "'c option \<Rightarrow> string option \<Rightarrow> ('f, 'c) fileSystem \<Rightarrow> ('f, 'c) fileSystem" where
  "invokeCallback callback err s =
     (case callback of None \<Rightarrow> s | Some c \<Rightarrow> emit (Callback c err) s)"

text \<open>The loop \<open>this._index.visitAll(function (child) { if
  (child.fullPath.indexOf(entry.fullPath) === 0) ... })\<close>, once clearing cached data
  (\<open>_unwatchEntry\<close>) and once removing the entries (\<open>unwatch\<close>). \<open>a.indexOf(b) === 0\<close>
  says that \<open>b\<close> is a prefix of \<open>a\<close>.\<close>

definition clearCachedDataBelow :: "entry \<Rightarrow> ('f, 'c) fileSystem \<Rightarrow> ('f, 'c) fileSystem" where
  "clearCachedDataBelow entry s =
     visitAll (\<lambda>child s'. if prefix (fullPath entry) (fullPath child)
                           then clearCachedData child s' else s') (index s) s"

definition removeEntriesBelow :: "entry \<Rightarrow> ('f, 'c) fileSystem \<Rightarrow> ('f, 'c) fileSystem" where
  "removeEntriesBelow entry s =
     visitAll (\<lambda>child s'. if prefix (fullPath entry) (fullPath child)
                           then s'\<lparr>index := removeEntry child (index s')\<rparr> else s') (index s) s"

text \<open>\<open>watchedRoot.active = true\<close> on the root object with identity \<open>i\<close>; the object is
  read again only through the registry.\<close>

definition setActive :: "nat \<Rightarrow> bool \<Rightarrow> (string \<times> 'f watchedRoot) list \<Rightarrow> (string \<times> 'f watchedRoot) list" where
  "setActive i b roots = map (\<lambda>(path, r). if rid r = i then (path, r\<lparr>active := b\<rparr>) else (path, r)) roots"

text \<open>The callback that \<open>_handleExternalChange\<close> gives to \<open>_handleDirectoryChange\<close>:
  \<open>entry._stat = stat; this._fireChangeEvent(entry, added, removed);\<close>\<close>

definition directoryChanged ::
  "entry \<Rightarrow> stats option \<Rightarrow> entry list \<Rightarrow> entry list \<Rightarrow> ('f, 'c) fileSystem \<Rightarrow> ('f, 'c) fileSystem" where
  "directoryChanged entry st added removed s =
     emit (DirectoryChangeEvent entry added removed) (setStat entry st s)"

text \<open>\<open>watchOrUnwatchCallback\<close> of \<open>_handleDirectoryChange\<close>, for the directory change with
  identity \<open>k\<close>: \<open>if (--counter === 0) { callback(addedEntries, removedEntries); }\<close>. It
  does not read its argument \<open>err\<close>.\<close>

definition countdown :: "nat \<Rightarrow> ('f, 'c) fileSystem \<Rightarrow> ('f, 'c) fileSystem" where
  "countdown k s =
     (case map_of (directoryChanges s) k of
        Some (CountingDown directory st added removed counter) \<Rightarrow>
          let s1 = s\<lparr>directoryChanges :=
                      AList.update k (CountingDown directory st added removed (counter - 1))
                        (directoryChanges s)\<rparr>
          in if counter - 1 = 0 then directoryChanged directory st added removed s1 else s1
      | _ \<Rightarrow> s)"

text \<open>The request callbacks: the closure given to \<open>_watchEntry\<close> by \<open>watch\<close>; the closure
  of \<open>_unwatchEntry\<close> around the one given by \<open>unwatch\<close>; the closure of \<open>_unwatchEntry\<close>
  around the one given by \<open>_unwatchAll\<close>; \<open>watchOrUnwatchCallback\<close> given to \<open>_watchEntry\<close>
  by \<open>_handleDirectoryChange\<close>; the closure of \<open>_unwatchEntry\<close> around
  \<open>watchOrUnwatchCallback\<close>.\<close>

fun applyRequestCb :: "'c requestCb \<Rightarrow> string option \<Rightarrow> ('f, 'c) fileSystem \<Rightarrow> ('f, 'c) fileSystem" where
  "applyRequestCb (WatchRootCb entry i callback) err s =
     (if truthy err then
        invokeCallback callback err
          ((emit (ConsoleWarn ''Failed to watch root: '') s)
             \<lparr>watchedRoots := AList.delete (fullPath entry) (watchedRoots s)\<rparr>)
      else invokeCallback callback None (s\<lparr>watchedRoots := setActive i True (watchedRoots s)\<rparr>))"
| "applyRequestCb (UnwatchRootCb entry callback) err s =
     (let s1 = clearCachedDataBelow entry s;
          s2 = s1\<lparr>watchedRoots := AList.delete (fullPath entry) (watchedRoots s1)\<rparr>;
          s3 = removeEntriesBelow entry s2
      in if truthy err then invokeCallback callback err (emit (ConsoleWarn ''Failed to unwatch root: '') s3)
         else invokeCallback callback None s3)"
| "applyRequestCb (UnwatchAllCb entry) err s =
     emit (ConsoleWarn ''Watching disabled for'') (clearCachedDataBelow entry s)"
| "applyRequestCb (WatchChildCb k) err s = countdown k s"
| "applyRequestCb (UnwatchChildCb entry k) err s = countdown k (clearCachedDataBelow entry s)"

text \<open>
  The continuation built by \<open>_dequeueWatchRequest\<close>, applied to \<open>err\<close>:
  \<open>try { request.cb.apply(null, callbackArgs); } finally { this._watchRequests.shift();
  this._dequeueWatchRequest(); }\<close>. In each request callback the callback of the caller
  is the last statement; \<open>threw\<close> says that it raised, and the exception then leaves the
  continuation after the \<open>finally\<close> block: the first component of the result.
\<close>

definition requestContinuation ::
  "'c request \<Rightarrow> string option \<Rightarrow> bool \<Rightarrow> ('f, 'c) fileSystem \<Rightarrow> bool \<times> ('f, 'c) fileSystem" where
  "requestContinuation request err threw s =
     (let s0 = emit (ContinuationApplied request err) s;
          s1 = applyRequestCb (requestCb request) err s0;
          s2 = s1\<lparr>watchRequests := tl (watchRequests s1)\<rparr>
      in (threw, dequeueWatchRequest s2))"

text \<open>The continuation of the request in flight, which is the head of the queue, is
  applied to \<open>err\<close>.\<close>

definition requestDone ::
  "string option \<Rightarrow> bool \<Rightarrow> ('f, 'c) fileSystem \<Rightarrow> bool \<times> ('f, 'c) fileSystem" where
  "requestDone err threw s =
     (case watchRequests s of
        [] \<Rightarrow> (False, s)
      | request # _ \<Rightarrow> requestContinuation request err threw s)"

text \<open>
  The request function on a backend without recursive watching. \<open>entry.visit\<close> is not
  part of this file: \<open>visited\<close> are the children it applies the visitor to, in order,
  each with what \<open>watchedRoot.filter(child.name, child.parentPath)\<close> answers for it. The
  visitor pushes a child that the filter accepts when it is a directory or the entry of
  the root (\<open>child === watchedRoot.entry\<close> compares identities).
\<close>

definition entriesToWatchOrUnwatch :: "entry \<Rightarrow> (entry \<times> bool) list \<Rightarrow> entry list" where
  "entriesToWatchOrUnwatch root visited =
     map fst (filter (\<lambda>(child, accepted).
                 accepted \<and> (constructedBy child = Directory \<or> eid child = eid root)) visited)"

text \<open>
  The callback that the request function gives to \<open>entry.visit\<close>, applied to \<open>err\<close> when
  the visit is over: an error of the visit goes to the continuation; with nothing to
  watch or unwatch the continuation is applied to \<open>null\<close>; otherwise \<open>impl.watchPath\<close> or
  \<open>impl.unwatchPath\<close> is called once for each entry, with \<open>watchOrUnwatchCallback\<close>, and
  \<open>count\<close> is the number of entries.
\<close>

definition visitDone ::
  "string option \<Rightarrow> (entry \<times> bool) list \<Rightarrow> bool \<Rightarrow> ('f, 'c) fileSystem \<Rightarrow> bool \<times> ('f, 'c) fileSystem" where
  "visitDone err visited threw s =
     (case watchRequests s of
        [] \<Rightarrow> (False, s)
      | request # _ \<Rightarrow>
          if truthy err then requestDone err threw s
          else
            let entries = entriesToWatchOrUnwatch (requestRoot request) visited;
                count = int (length entries)
            in if count = 0 then requestDone None threw s
               else (False, fold (\<lambda>entry. emit (ImplPathCall (shouldWatch request) (fullPath entry)))
                              entries (s\<lparr>requestCount := Some count\<rparr>)))"

text \<open>
  \<open>watchOrUnwatchCallback\<close> of the request function, applied by the backend to \<open>err\<close> when
  one of the calls of \<open>impl.watchPath\<close> or \<open>impl.unwatchPath\<close> is done:
  \<open>function () { if (--count === 0) { requestCb(null); } }\<close>. The function has no
  parameter: \<open>err\<close> is not read, and the continuation is applied to \<open>null\<close>.
\<close>

definition pathDone ::
  "string option \<Rightarrow> bool \<Rightarrow> ('f, 'c) fileSystem \<Rightarrow> bool \<times> ('f, 'c) fileSystem" where
  "pathDone err threw s =
     (case requestCount s of
        None \<Rightarrow> (False, s)
      | Some count \<Rightarrow>
          if count - 1 = 0 then requestDone None threw (s\<lparr>requestCount := None\<rparr>)
          else (False, s\<lparr>requestCount := Some (count - 1)\<rparr>))"

subsection \<open>Watched roots\<close>

text \<open>\<open>_findWatchedRootForPath\<close>: \<open>Object.keys\<close> lists the paths in the order they were
  registered (no path returned by \<open>_normalizePath\<close> is an array index), and \<open>some\<close> stops
  at the first one that is a prefix of \<open>fullPath\<close>.\<close>

definition findWatchedRootForPath :: "(string \<times> 'f watchedRoot) list \<Rightarrow> string \<Rightarrow> 'f watchedRoot option" where
  "findWatchedRootForPath roots fullPath' =
     map_option snd (find (\<lambda>(watchedPath, r). prefix watchedPath fullPath') roots)"

text \<open>\<open>_watchOrUnwatchEntry\<close>: \<open>entry !== watchedRoot.entry\<close> compares identities; the
  immediate \<open>callback(null)\<close> applies the request callback at once. The request function
  is the one for the backend at hand; it keeps the entry and the watched root.\<close>

definition watchOrUnwatchEntry ::
  "entry \<Rightarrow> 'f watchedRoot \<Rightarrow> 'c requestCb \<Rightarrow> bool \<Rightarrow> ('f, 'c) fileSystem \<Rightarrow> ('f, 'c) fileSystem" where
  "watchOrUnwatchEntry entry watchedRoot' callback shouldWatch' s =
     (if recursiveWatch s then
        (if eid entry \<noteq> eid (rootEntry watchedRoot') then applyRequestCb callback None s
         else enqueueWatchRequest (RequestOf shouldWatch' entry (rootEntry watchedRoot') callback) s)
      else enqueueWatchRequest (RequestOf shouldWatch' entry (rootEntry watchedRoot') callback) s)"

definition ParentAlreadyWatched :: string where
  "ParentAlreadyWatched = ''A parent of this root is already watched''"

definition ChildAlreadyWatched :: string where
  "ChildAlreadyWatched = ''A child of this root is already watched''"

definition NotWatched :: string where
  "NotWatched = ''Root is not watched.''"

text \<open>The property \<open>active\<close> of a JavaScript boolean: \<open>undefined\<close>, which is falsy.\<close>

definition activeOfBoolean :: "bool \<Rightarrow> bool" where
  "activeOfBoolean b = False"

text \<open>\<open>FileSystem.prototype.watch\<close>, up to the point where it returns. The new root
  object gets the next free identity.\<close>

definition watch :: "entry \<Rightarrow> 'f \<Rightarrow> 'c option \<Rightarrow> ('f, 'c) fileSystem \<Rightarrow> ('f, 'c) fileSystem" where
  "watch entry f callback s =
     (let fullPath' = fullPath entry;
          watchedRoot' = \<lparr>rid = nextId s, rootEntry = entry, filter' = f, active = False\<rparr>;
          watchingParentRoot = findWatchedRootForPath (watchedRoots s) fullPath'
      in if (case watchingParentRoot of None \<Rightarrow> False | Some r \<Rightarrow> active r) then
           invokeCallback callback (Some ParentAlreadyWatched) s
         else
           let watchingChildRoot =
                 list_ex (\<lambda>(path, r). prefix fullPath' (fullPath (rootEntry r))) (watchedRoots s)
           in if watchingChildRoot \<and> activeOfBoolean watchingChildRoot then
                invokeCallback callback (Some ChildAlreadyWatched) s
              else
                watchOrUnwatchEntry entry watchedRoot' (WatchRootCb entry (rid watchedRoot') callback) True
                  (s\<lparr>watchedRoots := AList.update fullPath' watchedRoot' (watchedRoots s),
                     nextId := Suc (nextId s)\<rparr>))"

text \<open>\<open>FileSystem.prototype.unwatch\<close>, up to the point where it returns.\<close>

definition unwatch :: "entry \<Rightarrow> 'c option \<Rightarrow> ('f, 'c) fileSystem \<Rightarrow> ('f, 'c) fileSystem" where
  "unwatch entry callback s =
     (let fullPath' = fullPath entry
      in case map_of (watchedRoots s) fullPath' of
           None \<Rightarrow> invokeCallback callback (Some NotWatched) s
         | Some watchedRoot' \<Rightarrow>
             watchOrUnwatchEntry entry watchedRoot' (UnwatchRootCb entry callback) False
               (s\<lparr>watchedRoots := AList.update fullPath' (watchedRoot'\<lparr>active := False\<rparr>) (watchedRoots s)\<rparr>))"

text \<open>\<open>_unwatchAll\<close>, the backend's offline callback: one iteration of its \<open>forEach\<close> for
  each path of \<open>Object.keys(this._watchedRoots)\<close>, then the wholesale change.\<close>

definition unwatchAllStep :: "string \<Rightarrow> ('f, 'c) fileSystem \<Rightarrow> ('f, 'c) fileSystem" where
  "unwatchAllStep path s =
     (case map_of (watchedRoots s) path of
        None \<Rightarrow> s
      | Some watchedRoot' \<Rightarrow>
          watchOrUnwatchEntry (rootEntry watchedRoot') watchedRoot' (UnwatchAllCb (rootEntry watchedRoot')) False
            (s\<lparr>watchedRoots := AList.delete path (watchedRoots s)\<rparr>))"

definition unwatchAll :: "('f, 'c) fileSystem \<Rightarrow> ('f, 'c) fileSystem" where
  "unwatchAll s =
     (let s1 = emit (ConsoleWarn ''File watchers went offline!'') s;
          s2 = fold unwatchAllStep (map fst (watchedRoots s1)) s1
      in emit (ChangeEvent None) (visitAll clearCachedData (index s2) s2))"

subsection \<open>Directory changes\<close>

text \<open>
  The callback that \<open>_handleDirectoryChange\<close> gives to \<open>directory.getContents\<close>, for the
  directory change with identity \<open>k\<close>. \<open>contents'\<close> is \<open>None\<close> when \<open>getContents\<close> applies the
  callback to an error and no contents: \<open>contents.filter\<close> then raises. \<open>accepted\<close> is
  what \<open>watchedRoot.filter(directory.name, directory.parentPath)\<close> answers if it is
  asked. \<open>indexOf(entry) === -1\<close> compares identities. The two \<open>forEach\<close> loops watch the
  added entries, then unwatch the removed ones.
\<close>

definition contentsLoaded ::
  "nat \<Rightarrow> entry list option \<Rightarrow> bool \<Rightarrow> ('f, 'c) fileSystem \<Rightarrow> error + ('f, 'c) fileSystem" where
  "contentsLoaded k contents' accepted s =
     (case map_of (directoryChanges s) k of
        Some (AwaitingContents directory st oldContents) \<Rightarrow>
          (case contents' of
             None \<Rightarrow> Inl (TypeError ''contents'')
           | Some cs \<Rightarrow>
               let addedEntries = filter (\<lambda>entry. eid entry \<notin> set (map eid oldContents)) cs;
                   removedEntries = filter (\<lambda>entry. eid entry \<notin> set (map eid cs)) oldContents;
                   s1 = s\<lparr>directoryChanges := AList.delete k (directoryChanges s)\<rparr>;
                   unwatched = directoryChanged directory st addedEntries removedEntries
                                 (fold clearCachedDataBelow removedEntries s1);
                   counter = int (length addedEntries) + int (length removedEntries)
               in case findWatchedRootForPath (watchedRoots s) (fullPath directory) of
                    None \<Rightarrow> Inr unwatched
                  | Some watchedRoot' \<Rightarrow>
                      if \<not> accepted then Inr unwatched
                      else if counter = 0 then
                        Inr (directoryChanged directory st addedEntries removedEntries s1)
                      else
                        Inr (fold (\<lambda>entry. watchOrUnwatchEntry entry watchedRoot' (UnwatchChildCb entry k) False)
                               removedEntries
                               (fold (\<lambda>entry. watchOrUnwatchEntry entry watchedRoot' (WatchChildCb k) True)
                                  addedEntries
                                  (s\<lparr>directoryChanges :=
                                       AList.update k
                                         (CountingDown directory st addedEntries removedEntries counter)
                                         (directoryChanges s)\<rparr>))))
      | _ \<Rightarrow> Inr s)"


section \<open>Notions used to state the properties\<close>

text \<open>The invariant of the index: every entry is stored under its own \<open>fullPath\<close>.\<close>

definition indexInvariant :: "(string \<times> entry) list \<Rightarrow> bool" where
  "indexInvariant idx = list_all (\<lambda>(path, e). fullPath e = path) idx"

text \<open>\<open>watch\<close> fails with the message \<open>msg\<close>: all it does is to apply the user callback
  to the message.\<close>

definition watchFailsWith ::
  "string \<Rightarrow> entry \<Rightarrow> 'f \<Rightarrow> 'c \<Rightarrow> ('f, 'c) fileSystem \<Rightarrow> bool" where
  "watchFailsWith msg entry f c s =
     (watch entry f (Some c) s = emit (Callback c (Some msg)) s)"

text \<open>The requests whose \<open>fn\<close> was called, and the requests whose continuation was
  applied, each in the order of the trace.\<close>

fun startedRequests :: "'c event list \<Rightarrow> 'c request list" where
  "startedRequests [] = []"
| "startedRequests (RequestStarted r # evs) = r # startedRequests evs"
| "startedRequests (ev # evs) = startedRequests evs"

fun completedRequests :: "'c event list \<Rightarrow> 'c request list" where
  "completedRequests [] = []"
| "completedRequests (ContinuationApplied r err # evs) = r # completedRequests evs"
| "completedRequests (ev # evs) = completedRequests evs"

text \<open>
  The calls that reach a FileSystem object: its exported methods, the mutation brackets
  used by the entry classes, and the callbacks it hands out. To the backend go the
  callbacks for an external change and for going offline and, with recursive watching,
  the continuation of the watch request (\<open>RequestDone\<close>). Without recursive watching
  the request function gives a callback to \<open>entry.visit\<close> (\<open>VisitDone\<close>, while the visit
  of the request in flight is not over) and one to each call of \<open>impl.watchPath\<close> or
  \<open>impl.unwatchPath\<close> (\<open>PathDone\<close>, for a call made for the request in flight). To
  \<open>directory.getContents\<close> goes the callback of a directory change (\<open>ContentsLoaded\<close>).
  \<open>CacheContents\<close> is the \<open>Directory\<close> class storing the contents it has loaded.
\<close>

datatype ('f, 'c) call =
    GetFileForPath string
  | GetDirectoryForPath string
  | Watch entry 'f "'c option"
  | Unwatch entry "'c option"
  | Close
  | BeginChange
  | EndChange
  | ExternalChange "string option" "stats option"
  | Offline
  | RequestDone "string option" bool
  | VisitDone "string option" "(entry \<times> bool) list" bool
  | PathDone "string option" bool
  | ContentsLoaded nat "entry list option" bool
  | CacheContents entry "entry list"

text \<open>The state after a call; an exception leaves the state as it was when it was raised.\<close>

fun perform :: "('f, 'c) call \<Rightarrow> ('f, 'c) fileSystem \<Rightarrow> ('f, 'c) fileSystem" where
  "perform (GetFileForPath path) s = (case getFileForPath path s of Inl e \<Rightarrow> s | Inr (entry, s') \<Rightarrow> s')"
| "perform (GetDirectoryForPath path) s = (case getDirectoryForPath path s of Inl e \<Rightarrow> s | Inr (entry, s') \<Rightarrow> s')"
| "perform (Watch entry f callback) s = watch entry f callback s"
| "perform (Unwatch entry callback) s = unwatch entry callback s"
| "perform Close s = close s"
| "perform BeginChange s = beginChange s"
| "perform EndChange s = snd (endChange s)"
| "perform (ExternalChange path st) s = snd (enqueueExternalChange path st s)"
| "perform Offline s = unwatchAll s"
| "perform (RequestDone err threw) s =
     (if recursiveWatch s then snd (requestDone err threw s) else s)"
| "perform (VisitDone err visited threw) s =
     (if \<not> recursiveWatch s \<and> requestCount s = None then snd (visitDone err visited threw s) else s)"
| "perform (PathDone err threw) s = snd (pathDone err threw s)"
| "perform (ContentsLoaded k contents' accepted) s =
     (case contentsLoaded k contents' accepted s of Inl e \<Rightarrow> s | Inr s' \<Rightarrow> s')"
| "perform (CacheContents directory cs) s = setContents directory cs s"

text \<open>The queued changes are handled one after the other, none raising: from state \<open>s\<close>
  this leads to state \<open>s'\<close>.\<close>

inductive handledInOrder ::
  "(string option \<times> stats option) list \<Rightarrow> ('f, 'c) fileSystem \<Rightarrow> ('f, 'c) fileSystem \<Rightarrow> bool" where
  handledNil: "handledInOrder [] s s"
| handledCons: "handleExternalChange path st s = Inr s1 \<Longrightarrow> handledInOrder infos s1 s2
     \<Longrightarrow> handledInOrder ((path, st) # infos) s s2"

code_pred handledInOrder .

text \<open>A change whose path \<open>_handleExternalChange\<close> accepts: a falsy path (wholesale
  change) or a path that \<open>_normalizePath\<close> does not reject.\<close>

definition acceptedChange :: "bool \<Rightarrow> string option \<times> stats option \<Rightarrow> bool" where
  "acceptedChange unc info =
     (if truthy (fst info)
      then (case normalizePath unc (the (fst info)) False of Inl e \<Rightarrow> False | Inr q \<Rightarrow> True)
      else True)"


text \<open>
  The loop over the segments, seen as a stack machine: \<open>kept\<close> are the segments before
  the index, \<open>rest\<close> the segments from the index on. A \<open>".."\<close> pops the last kept segment
  and fails when fewer than two are kept. \<open>removeDotDotSegments_resolve\<close> below shows
  that this is what the loop computes.
\<close>

fun resolveSegments :: "string \<Rightarrow> string list \<Rightarrow> string list \<Rightarrow> error + string list" where
  "resolveSegments path kept [] = Inr kept"
| "resolveSegments path kept (seg # rest) =
     (if seg = ''..'' then
        (if length kept < 2 then Inl (InvalidPath path)
         else resolveSegments path (butlast kept) rest)
      else resolveSegments path (kept @ [seg]) rest)"

text \<open>What \<open>_normalizePath\<close> does to a path whose duplicated slashes are gone already,
  without the test \<open>path.indexOf("..") !== -1\<close> that only skips a loop which would change
  nothing (\<open>normalizePath_collapsed\<close> below).\<close>

definition normalizeCollapsed :: "bool \<Rightarrow> string \<Rightarrow> error + string" where
  "normalizeCollapsed isDirectory path1 =
     (case removeDotDotSegments path1 (splitSlash path1) 1 of
        Inl e \<Rightarrow> Inl e
      | Inr segments \<Rightarrow>
          Inr (if isDirectory then appendTrailingSlash (joinSlash segments) else joinSlash segments))"

text \<open>
  What a state shows of the watch-request queue: the requests started, the requests
  completed and the requests pending. A request is in flight when it was started and is
  not completed; \<open>queueInvariant\<close> says that this is the head of the queue and no other
  request. \<open>submittedRequests\<close> lists the requests handed to \<open>_enqueueWatchRequest\<close> that
  the state still knows of: the completed ones, then the pending ones.
\<close>

definition queueView :: "('f, 'c) fileSystem \<Rightarrow> 'c request list \<times> 'c request list \<times> 'c request list" where
  "queueView s = (startedRequests (trace s), completedRequests (trace s), watchRequests s)"

definition queueInvariant :: "('f, 'c) fileSystem \<Rightarrow> bool" where
  "queueInvariant s =
     (startedRequests (trace s) = completedRequests (trace s) @ take 1 (watchRequests s))"

definition submittedRequests :: "('f, 'c) fileSystem \<Rightarrow> 'c request list" where
  "submittedRequests s = completedRequests (trace s) @ watchRequests s"

text \<open>A run used in the examples: on a backend with recursive watching, the directory
  \<open>/proj\<close> is interned and watched, and the backend reports success.\<close>

definition projDir :: entry where
  "projDir = \<lparr>eid = 0, fullPath = ''/proj/'', constructedBy = Directory\<rparr>"

definition projWatched :: "(unit, nat) fileSystem" where
  "projWatched =
     fold perform [GetDirectoryForPath ''/proj'', Watch projDir () (Some 1), RequestDone None False]
       (newFileSystem True False)"

text \<open>The run goes on: the directory \<open>/\<close> is interned and \<open>watch\<close> is called on it.\<close>

definition rootDir :: entry where
  "rootDir = \<lparr>eid = 2, fullPath = ''/'', constructedBy = Directory\<rparr>"

definition rootWatchCalled :: "(unit, nat) fileSystem" where
  "rootWatchCalled = fold perform [GetDirectoryForPath ''/'', Watch rootDir () (Some 2)] projWatched"

text \<open>Another continuation of the run: a directory below \<open>/proj/\<close> and a file outside of it
  are interned.\<close>

definition projIndexed :: "(unit, nat) fileSystem" where
  "projIndexed = fold perform [GetDirectoryForPath ''/proj/sub'', GetFileForPath ''/other.txt''] projWatched"

text \<open>A run used for the change coordinator: the file \<open>/p/f.txt\<close> is interned, and the
  backend reports a change of it with a stat, which is handled at once.\<close>

definition fileStat :: stats where
  "fileStat = \<lparr>mtime = Some 5, size' = 1\<rparr>"

definition fileChanged :: "(unit, nat) fileSystem" where
  "fileChanged =
     fold perform [GetFileForPath ''/p/f.txt'', ExternalChange (Some ''/p/f.txt'') (Some fileStat)]
       (newFileSystem True False)"

text \<open>The first run on a backend without recursive watching: the visit of the watch
  request finds \<open>/proj/\<close> alone, and the backend reports success for it.\<close>

definition projWatchedFlat :: "(unit, nat) fileSystem" where
  "projWatchedFlat =
     fold perform [GetDirectoryForPath ''/proj'', Watch projDir () (Some 1),
                   VisitDone None [(projDir, True)] False, PathDone None False]
       (newFileSystem False False)"


section \<open>Properties\<close>

subsection \<open>Path normalization\<close>

lemma removeDotDotSegments_resolve:
  "i \<le> length segments \<Longrightarrow>
   removeDotDotSegments path segments i = resolveSegments path (take i segments) (drop i segments)"
proof (induction path segments i rule: removeDotDotSegments.induct)
  case (1 path segments i)
  show ?case
  proof (cases "i < length segments")
    case False
    with 1(3) have "i = length segments" by simp
    then show ?thesis by (subst removeDotDotSegments.simps) simp
  next
    case True
    then have d: "drop i segments = segments ! i # drop (Suc i) segments"
      by (simp add: Cons_nth_drop_Suc)
    show ?thesis
    proof (cases "segments ! i = ''..''")
      case dd: True
      show ?thesis
      proof (cases "i < 2")
        case True
        with dd \<open>i < length segments\<close> d show ?thesis
          by (subst removeDotDotSegments.simps) simp
      next
        case False
        let ?segs = "take (i - 1) segments @ drop (i + 1) segments"
        have len: "i - 2 + 1 \<le> length ?segs" using False True by simp
        have ih: "removeDotDotSegments path ?segs (i - 2 + 1)
            = resolveSegments path (take (i - 2 + 1) ?segs) (drop (i - 2 + 1) ?segs)"
          using 1(1) [OF True dd False len] .
        have e: "i - 2 + 1 = i - 1" using False by simp
        have l: "length (take (i - 1) segments) = i - 1" using True by simp
        have t: "take (i - 2 + 1) ?segs = butlast (take i segments)"
          unfolding e using True l by (simp add: butlast_take)
        have dr: "drop (i - 2 + 1) ?segs = drop (Suc i) segments"
          unfolding e using l by simp
        have "removeDotDotSegments path segments i = removeDotDotSegments path ?segs (i - 2 + 1)"
          using True dd False by (subst removeDotDotSegments.simps) simp
        also have "\<dots> = resolveSegments path (butlast (take i segments)) (drop (Suc i) segments)"
          using ih t dr by simp
        also have "\<dots> = resolveSegments path (take i segments) (drop i segments)"
          using d dd False True by simp
        finally show ?thesis .
      qed
    next
      case nd: False
      have len: "i + 1 \<le> length segments" using True by simp
      have ih: "removeDotDotSegments path segments (i + 1)
            = resolveSegments path (take (i + 1) segments) (drop (i + 1) segments)"
        using 1(2) [OF True nd len] .
      have "removeDotDotSegments path segments i = removeDotDotSegments path segments (i + 1)"
        using True nd by (subst removeDotDotSegments.simps) simp
      also have "\<dots> = resolveSegments path (take i segments @ [segments ! i]) (drop (Suc i) segments)"
        using ih True by (simp add: take_Suc_conv_app_nth)
      also have "\<dots> = resolveSegments path (take i segments) (drop i segments)"
        using d nd by simp
      finally show ?thesis .
    qed
  qed
qed

lemma resolveSegments_plain:
  "''..'' \<notin> set xs \<Longrightarrow> resolveSegments path kept (xs @ ys) = resolveSegments path (kept @ xs) ys"
  by (induction xs arbitrary: kept) auto

lemma resolveSegments_fixed:
  "''..'' \<notin> set rest \<Longrightarrow> resolveSegments path kept rest = Inr (kept @ rest)"
  using resolveSegments_plain [of rest path kept "[]"] by simp

lemma splitSlash_nonempty [simp]: "splitSlash p \<noteq> []"
  by (induction p) auto

lemma joinSlash_Cons_char: "joinSlash ((c # s) # ss) = c # joinSlash (s # ss)"
  by (cases ss) auto

lemma joinSlash_splitSlash: "joinSlash (splitSlash p) = p"
proof (induction p)
  case Nil
  show ?case by simp
next
  case (Cons c cs)
  obtain s ss where S: "splitSlash cs = s # ss"
    using splitSlash_nonempty [of cs] by (cases "splitSlash cs") auto
  with Cons show ?case by (auto simp add: joinSlash_Cons_char)
qed

lemma splitSlash_slashFree: "s \<in> set (splitSlash p) \<Longrightarrow> CHR ''/'' \<notin> set s"
proof (induction p arbitrary: s)
  case Nil
  then show ?case by simp
next
  case (Cons c cs)
  obtain t ts where S: "splitSlash cs = t # ts"
    using splitSlash_nonempty [of cs] by (cases "splitSlash cs") auto
  with Cons show ?case by (auto split: if_splits)
qed

lemma splitSlash_single: "CHR ''/'' \<notin> set s \<Longrightarrow> splitSlash s = [s]"
  by (induction s) auto

lemma splitSlash_append_slash:
  "CHR ''/'' \<notin> set s \<Longrightarrow> splitSlash (s @ CHR ''/'' # r) = s # splitSlash r"
  by (induction s) auto

lemma splitSlash_joinSlash:
  "segs \<noteq> [] \<Longrightarrow> \<forall>s\<in>set segs. CHR ''/'' \<notin> set s \<Longrightarrow> splitSlash (joinSlash segs) = segs"
proof (induction segs rule: joinSlash.induct)
  case 1
  then show ?case by simp
next
  case (2 s)
  then show ?case by (simp add: splitSlash_single)
next
  case (3 s t ss)
  then show ?case by (simp add: splitSlash_append_slash)
qed

lemma joinSlash_snoc_empty: "segs \<noteq> [] \<Longrightarrow> joinSlash (segs @ [[]]) = joinSlash segs @ ''/''"
  by (induction segs rule: joinSlash.induct) auto

lemma splitSlash_snoc_slash: "splitSlash (x @ ''/'') = splitSlash x @ [[]]"
proof -
  have "x @ ''/'' = joinSlash (splitSlash x @ [[]])"
    by (simp add: joinSlash_snoc_empty joinSlash_splitSlash)
  moreover have "splitSlash (joinSlash (splitSlash x @ [[]])) = splitSlash x @ [[]]"
    by (rule splitSlash_joinSlash) (auto dest: splitSlash_slashFree)
  ultimately show ?thesis by simp
qed

lemma removeDuplicatedSlashes_Cons:
  "\<exists>t. removeDuplicatedSlashes (c # cs) = c # t"
  by (induction cs arbitrary: c) auto

lemma removeDuplicatedSlashes_Nil_iff [simp]: "removeDuplicatedSlashes p = [] \<longleftrightarrow> p = []"
proof (cases p)
  case Nil
  then show ?thesis by simp
next
  case (Cons c cs)
  obtain t where "removeDuplicatedSlashes (c # cs) = c # t"
    using removeDuplicatedSlashes_Cons [of c cs] by (elim exE)
  with Cons show ?thesis by simp
qed

lemma removeDuplicatedSlashes_length: "length (removeDuplicatedSlashes x) \<le> length x"
  by (induction x rule: removeDuplicatedSlashes.induct) auto

lemma removeDuplicatedSlashes_slashFree:
  "CHR ''/'' \<notin> set s \<Longrightarrow> removeDuplicatedSlashes (s @ t) = s @ removeDuplicatedSlashes t"
proof (induction s rule: removeDuplicatedSlashes.induct)
  case 1
  show ?case by simp
next
  case (2 c)
  then show ?case by (cases t) auto
next
  case (3 c d cs)
  then show ?case by auto
qed

lemma removeDuplicatedSlashes_snoc:
  "x \<noteq> [] \<Longrightarrow> last x \<noteq> CHR ''/'' \<Longrightarrow>
   removeDuplicatedSlashes (x @ y) = removeDuplicatedSlashes x @ removeDuplicatedSlashes y"
proof (induction x rule: removeDuplicatedSlashes.induct)
  case 1
  then show ?case by simp
next
  case (2 c)
  then show ?case by (cases y) auto
next
  case (3 c d cs)
  then show ?case by auto
qed

lemma removeDuplicatedSlashes_idem:
  "removeDuplicatedSlashes (removeDuplicatedSlashes p) = removeDuplicatedSlashes p"
proof (induction p rule: removeDuplicatedSlashes.induct)
  case 1
  show ?case by simp
next
  case (2 c)
  show ?case by simp
next
  case (3 c d cs)
  obtain t where t: "removeDuplicatedSlashes (d # cs) = d # t"
    using removeDuplicatedSlashes_Cons by blast
  with 3 show ?case by auto
qed

lemma not_startsWithDuplicatedSlash:
  assumes "removeDuplicatedSlashes x = x"
  shows "\<not> startsWithDuplicatedSlash x"
proof
  assume "startsWithDuplicatedSlash x"
  then obtain cs where x: "x = CHR ''/'' # CHR ''/'' # cs"
    unfolding startsWithDuplicatedSlash_def
    by (cases x; cases "tl x") (auto split: if_splits)
  have "length (removeDuplicatedSlashes (CHR ''/'' # cs)) \<le> Suc (length cs)"
    using removeDuplicatedSlashes_length [of "CHR ''/'' # cs"] by simp
  with assms x show False by simp
qed

lemma hd_splitSlash_Cons:
  "hd (splitSlash (c # y)) = (if c = CHR ''/'' then [] else c # hd (splitSlash y))"
  by simp

lemma hd_splitSlash_removeDuplicatedSlashes:
  "hd (splitSlash (removeDuplicatedSlashes p)) = hd (splitSlash p)"
proof (induction p rule: removeDuplicatedSlashes.induct)
  case 1
  show ?case by simp
next
  case (2 c)
  show ?case by simp
next
  case (3 c d cs)
  show ?case
  proof (cases "c = CHR ''/'' \<and> d = CHR ''/''")
    case True
    with 3 show ?thesis by simp
  next
    case False
    with 3 show ?thesis by (simp del: splitSlash.simps add: hd_splitSlash_Cons)
  qed
qed

lemma isAbsolutePath_segments:
  "isAbsolutePath y \<longleftrightarrow>
     (y \<noteq> [] \<and> hd (splitSlash y) = []) \<or> charAt (hd (splitSlash y)) 1 = Some CHR '':''"
proof (cases y)
  case Nil
  then show ?thesis by (simp add: isAbsolutePath_def charAt_def)
next
  case (Cons c cs)
  show ?thesis
  proof (cases cs)
    case Nil
    with Cons show ?thesis by (simp add: isAbsolutePath_def charAt_def)
  next
    case (Cons d ds)
    with \<open>y = c # cs\<close> show ?thesis by (auto simp add: isAbsolutePath_def charAt_def)
  qed
qed

lemma removeDuplicatedSlashes_slash_joinSlash:
  "ts \<noteq> [] \<Longrightarrow> \<forall>s\<in>set ts. CHR ''/'' \<notin> set s \<Longrightarrow> [] \<notin> set (butlast ts) \<Longrightarrow>
   removeDuplicatedSlashes (CHR ''/'' # joinSlash ts) = CHR ''/'' # joinSlash ts"
proof (induction ts rule: joinSlash.induct)
  case 1
  then show ?case by simp
next
  case (2 t)
  then have "removeDuplicatedSlashes (t @ []) = t @ removeDuplicatedSlashes []"
    by (intro removeDuplicatedSlashes_slashFree) simp
  with 2 show ?case by (cases t) auto
next
  case (3 t u us)
  then obtain c t' where t: "t = c # t'" and c: "c \<noteq> CHR ''/''"
    by (cases t) auto
  have sf: "CHR ''/'' \<notin> set t" using 3 by simp
  have ih: "removeDuplicatedSlashes (CHR ''/'' # joinSlash (u # us)) = CHR ''/'' # joinSlash (u # us)"
    using 3 by (auto split: if_splits)
  have "removeDuplicatedSlashes (CHR ''/'' # joinSlash (t # u # us))
      = CHR ''/'' # removeDuplicatedSlashes (t @ CHR ''/'' # joinSlash (u # us))"
    using t c by simp
  also have "\<dots> = CHR ''/'' # t @ removeDuplicatedSlashes (CHR ''/'' # joinSlash (u # us))"
    using removeDuplicatedSlashes_slashFree [OF sf] by simp
  finally show ?case using ih by simp
qed

lemma removeDuplicatedSlashes_joinSlash:
  assumes "segs \<noteq> []" and sf: "\<forall>s\<in>set segs. CHR ''/'' \<notin> set s"
    and inner: "[] \<notin> set (butlast (tl segs))"
  shows "removeDuplicatedSlashes (joinSlash segs) = joinSlash segs"
proof (cases segs)
  case Nil
  with assms show ?thesis by simp
next
  case (Cons s ts)
  have s: "CHR ''/'' \<notin> set s" using sf Cons by simp
  show ?thesis
  proof (cases ts)
    case Nil
    with Cons s removeDuplicatedSlashes_slashFree [OF s, of "[]"] show ?thesis by simp
  next
    case (Cons t us)
    have "removeDuplicatedSlashes (CHR ''/'' # joinSlash ts) = CHR ''/'' # joinSlash ts"
      using sf inner \<open>segs = s # ts\<close> Cons
      by (intro removeDuplicatedSlashes_slash_joinSlash) auto
    with removeDuplicatedSlashes_slashFree [OF s, of "CHR ''/'' # joinSlash ts"] Cons \<open>segs = s # ts\<close>
    show ?thesis by simp
  qed
qed

lemma butlast_Cons_nonempty: "[] \<notin> set (butlast (x # xs)) \<longleftrightarrow> (xs = [] \<or> (x \<noteq> [] \<and> [] \<notin> set (butlast xs)))"
  by auto

lemma inner_splitSlash:
  "removeDuplicatedSlashes x = x \<Longrightarrow> [] \<notin> set (butlast (tl (splitSlash x)))"
proof (induction x rule: removeDuplicatedSlashes.induct)
  case 1
  show ?case by simp
next
  case (2 c)
  show ?case by simp
next
  case (3 c d cs)
  show ?case
  proof (cases "c = CHR ''/'' \<and> d = CHR ''/''")
    case True
    with 3(3) have "removeDuplicatedSlashes (d # cs) = c # d # cs" by simp
    then have "length (removeDuplicatedSlashes (d # cs)) = Suc (Suc (length cs))" by simp
    with removeDuplicatedSlashes_length [of "d # cs"] show ?thesis by simp
  next
    case False
    with 3(3) have fx: "removeDuplicatedSlashes (d # cs) = d # cs" by auto
    have ih: "[] \<notin> set (butlast (tl (splitSlash (d # cs))))"
      using 3(2) False fx by blast
    show ?thesis
    proof (cases "c = CHR ''/''")
      case c: True
      with False have d: "d \<noteq> CHR ''/''" by simp
      have "splitSlash (c # d # cs) = [] # (d # hd (splitSlash cs)) # tl (splitSlash cs)"
        using c d by simp
      moreover have "tl (splitSlash (d # cs)) = tl (splitSlash cs)" using d by simp
      ultimately show ?thesis using ih by (simp add: butlast_Cons_nonempty del: splitSlash.simps)
    next
      case c: False
      then have "tl (splitSlash (c # d # cs)) = tl (splitSlash (d # cs))" by simp
      with ih show ?thesis by simp
    qed
  qed
qed

lemma resolveSegments_hd:
  "resolveSegments path kept rest = Inr r \<Longrightarrow> kept \<noteq> [] \<Longrightarrow> r \<noteq> [] \<and> hd r = hd kept"
proof (induction rest arbitrary: kept)
  case Nil
  then show ?case by simp
next
  case (Cons seg rest)
  show ?case
  proof (cases "seg = ''..''")
    case True
    with Cons.prems have l: "\<not> length kept < 2" and r: "resolveSegments path (butlast kept) rest = Inr r"
      by (auto split: if_splits)
    from l obtain a b ks where "kept = a # b # ks" by (cases kept; cases "tl kept") auto
    then have "butlast kept \<noteq> []" "hd (butlast kept) = hd kept" by auto
    with Cons.IH [OF r] show ?thesis by simp
  next
    case False
    with Cons.prems have "resolveSegments path (kept @ [seg]) rest = Inr r" by simp
    from Cons.IH [OF this] Cons.prems(2) show ?thesis by simp
  qed
qed

lemma resolveSegments_set:
  "resolveSegments path kept rest = Inr r \<Longrightarrow> set r \<subseteq> set kept \<union> set rest"
proof (induction rest arbitrary: kept)
  case Nil
  then show ?case by simp
next
  case (Cons seg rest)
  show ?case
  proof (cases "seg = ''..''")
    case True
    with Cons.prems have r: "resolveSegments path (butlast kept) rest = Inr r"
      by (auto split: if_splits)
    from Cons.IH [OF r] show ?thesis by (auto dest: in_set_butlastD)
  next
    case False
    with Cons.prems have "resolveSegments path (kept @ [seg]) rest = Inr r" by simp
    from Cons.IH [OF this] show ?thesis by auto
  qed
qed

lemma resolveSegments_noDotDot:
  "resolveSegments path kept rest = Inr r \<Longrightarrow> ''..'' \<notin> set (tl kept) \<Longrightarrow> ''..'' \<notin> set (tl r)"
proof (induction rest arbitrary: kept)
  case Nil
  then show ?case by simp
next
  case (Cons seg rest)
  show ?case
  proof (cases "seg = ''..''")
    case True
    with Cons.prems have r: "resolveSegments path (butlast kept) rest = Inr r"
      by (auto split: if_splits)
    have "''..'' \<notin> set (tl (butlast kept))"
      using Cons.prems(2) by (cases kept) (auto dest: in_set_butlastD)
    from Cons.IH [OF r this] show ?thesis .
  next
    case False
    with Cons.prems have r: "resolveSegments path (kept @ [seg]) rest = Inr r" by simp
    have "''..'' \<notin> set (tl (kept @ [seg]))"
      using Cons.prems(2) False by (cases kept) auto
    from Cons.IH [OF r this] show ?thesis .
  qed
qed

lemma inner_pop:
  assumes "\<not> length kept < 2" and "[] \<notin> set (butlast (tl (kept @ x # rest)))"
  shows "[] \<notin> set (butlast (tl (butlast kept @ rest)))"
proof -
  from assms(1) obtain a b ks where k: "kept = a # b # ks" by (cases kept; cases "tl kept") auto
  have 1: "[] \<notin> set (b # ks)" and 2: "rest \<noteq> [] \<Longrightarrow> [] \<notin> set (butlast rest)"
    using assms(2) unfolding k by (auto simp add: butlast_append split: if_splits)
  have "set (butlast (b # ks)) \<subseteq> set (b # ks)" by (auto dest: in_set_butlastD)
  with 1 have 3: "[] \<notin> set (butlast (b # ks))" by blast
  show ?thesis
  proof (cases "rest = []")
    case True
    have "set (butlast (butlast (b # ks))) \<subseteq> set (butlast (b # ks))"
      by (meson in_set_butlastD subsetI)
    with 3 True show ?thesis unfolding k by auto
  next
    case False
    with 2 3 show ?thesis unfolding k by (auto simp add: butlast_append)
  qed
qed

lemma resolveSegments_inner:
  "resolveSegments path kept rest = Inr r \<Longrightarrow> kept \<noteq> [] \<Longrightarrow>
   [] \<notin> set (butlast (tl (kept @ rest))) \<Longrightarrow> [] \<notin> set (butlast (tl r))"
proof (induction rest arbitrary: kept)
  case Nil
  then show ?case by simp
next
  case (Cons seg rest)
  show ?case
  proof (cases "seg = ''..''")
    case True
    with Cons.prems have l: "\<not> length kept < 2" and r: "resolveSegments path (butlast kept) rest = Inr r"
      by (auto split: if_splits)
    from l have ne: "butlast kept \<noteq> []" by (cases kept; cases "tl kept") auto
    from Cons.IH [OF r ne inner_pop [OF l Cons.prems(3)]] show ?thesis .
  next
    case False
    with Cons.prems have r: "resolveSegments path (kept @ [seg]) rest = Inr r" by simp
    from Cons.IH [OF r] Cons.prems(3) show ?thesis by simp
  qed
qed

lemma normalizePath_root: "normalizePath unc ''/'' d = Inr ''/''"
  by (simp add: normalizePath_def isAbsolutePath_def charAt_def startsWithDuplicatedSlash_def
      appendTrailingSlash_def Let_def removeDotDotSegments.simps)

lemma containsDotDot_Cons: "containsDotDot x \<Longrightarrow> containsDotDot (c # x)"
  by (cases x) auto

lemma containsDotDot_append1: "containsDotDot a \<Longrightarrow> containsDotDot (a @ b)"
  by (induction a rule: containsDotDot.induct) auto

lemma containsDotDot_append2: "containsDotDot b \<Longrightarrow> containsDotDot (a @ b)"
  by (induction a) (auto intro: containsDotDot_Cons)

lemma containsDotDot_joinSlash: "''..'' \<in> set segs \<Longrightarrow> containsDotDot (joinSlash segs)"
proof (induction segs rule: joinSlash.induct)
  case 1
  then show ?case by simp
next
  case (2 s)
  then have "s = ''..''" by simp
  then show ?case by simp
next
  case (3 s t ss)
  show ?case
  proof (cases "s = ''..''")
    case True
    then show ?thesis by simp
  next
    case False
    with 3 have "containsDotDot (joinSlash (t # ss))" by simp
    then have "containsDotDot ((s @ ''/'') @ joinSlash (t # ss))" by (rule containsDotDot_append2)
    then show ?thesis by simp
  qed
qed

lemma splitSlash_noDotDot: "\<not> containsDotDot x \<Longrightarrow> ''..'' \<notin> set (splitSlash x)"
  using containsDotDot_joinSlash [of "splitSlash x"] by (auto simp add: joinSlash_splitSlash)

lemma removeDotDotSegments_from_1:
  "segs \<noteq> [] \<Longrightarrow> removeDotDotSegments path segs 1 = resolveSegments path [hd segs] (tl segs)"
  using removeDotDotSegments_resolve [of 1 segs path] by (cases segs) auto

lemma removeDotDotSegments_fixed:
  assumes "''..'' \<notin> set (tl segs)"
  shows "removeDotDotSegments path segs 1 = Inr segs"
proof (cases segs)
  case Nil
  then show ?thesis by (subst removeDotDotSegments.simps) simp
next
  case (Cons s ss)
  with assms removeDotDotSegments_from_1 [of segs path] resolveSegments_fixed [of ss path "[s]"]
  show ?thesis by simp
qed

lemma normalizePath_collapsed:
  "normalizePath unc p d =
     (if \<not> isAbsolutePath p then Inl (AbsolutePathRequired p)
      else case normalizeCollapsed d (removeDuplicatedSlashes p) of
             Inl e \<Rightarrow> Inl e
           | Inr b \<Rightarrow> Inr (if unc \<and> startsWithDuplicatedSlash p then CHR ''/'' # b else b))"
proof (cases "isAbsolutePath p")
  case False
  then show ?thesis by (simp add: normalizePath_def)
next
  case abs: True
  let ?x = "removeDuplicatedSlashes p"
  show ?thesis
  proof (cases "containsDotDot ?x")
    case True
    show ?thesis
    proof (cases "removeDotDotSegments ?x (splitSlash ?x) 1")
      case (Inl e)
      with abs True show ?thesis
        by (simp add: normalizePath_def normalizeCollapsed_def Let_def)
    next
      case (Inr r)
      with abs True show ?thesis
        by (simp add: normalizePath_def normalizeCollapsed_def Let_def)
    qed
  next
    case False
    have "''..'' \<notin> set (tl (splitSlash ?x))"
      using splitSlash_noDotDot [OF False] by (auto dest: list.set_sel(2) [rotated])
    then have "removeDotDotSegments ?x (splitSlash ?x) 1 = Inr (splitSlash ?x)"
      by (rule removeDotDotSegments_fixed)
    with abs False show ?thesis
      by (simp add: normalizePath_def normalizeCollapsed_def Let_def joinSlash_splitSlash)
  qed
qed

lemma normalizeCollapsed_segments:
  assumes "r \<noteq> []" and "\<forall>s\<in>set r. CHR ''/'' \<notin> set s" and "''..'' \<notin> set (tl r)"
  shows "normalizeCollapsed d (joinSlash r) =
     Inr (if d then appendTrailingSlash (joinSlash r) else joinSlash r)"
proof -
  have "splitSlash (joinSlash r) = r" using assms(1,2) by (rule splitSlash_joinSlash)
  moreover have "removeDotDotSegments (joinSlash r) r 1 = Inr r"
    using assms(3) by (rule removeDotDotSegments_fixed)
  ultimately show ?thesis by (simp add: normalizeCollapsed_def)
qed

lemma normalizeCollapsed_fixed:
  assumes nc: "normalizeCollapsed d x = Inr b" and x: "removeDuplicatedSlashes x = x"
  shows "removeDuplicatedSlashes b = b \<and> normalizeCollapsed d b = Inr b
         \<and> hd (splitSlash b) = hd (splitSlash x)"
proof -
  obtain h T where S: "splitSlash x = h # T"
    using splitSlash_nonempty [of x] by (cases "splitSlash x") auto
  from nc obtain r where scan: "removeDotDotSegments x (splitSlash x) 1 = Inr r"
    and b: "b = (if d then appendTrailingSlash (joinSlash r) else joinSlash r)"
    by (auto simp add: normalizeCollapsed_def split: sum.splits)
  have res: "resolveSegments x [h] T = Inr r"
    using scan removeDotDotSegments_from_1 [of "splitSlash x" x] S by simp
  have ne: "r \<noteq> []" and hd: "hd r = h"
    using resolveSegments_hd [OF res] by simp_all
  have sf: "\<forall>s\<in>set r. CHR ''/'' \<notin> set s"
  proof
    fix s assume "s \<in> set r"
    with resolveSegments_set [OF res] have "s \<in> set (splitSlash x)" using S by auto
    then show "CHR ''/'' \<notin> set s" by (rule splitSlash_slashFree)
  qed
  have nd: "''..'' \<notin> set (tl r)"
    using resolveSegments_noDotDot [OF res] by simp
  have "[] \<notin> set (butlast (tl ([h] @ T)))"
    using inner_splitSlash [OF x] S by simp
  then have inn: "[] \<notin> set (butlast (tl r))"
    using resolveSegments_inner [OF res] by simp
  let ?b2 = "joinSlash r"
  have rb2: "removeDuplicatedSlashes ?b2 = ?b2"
    using ne sf inn by (rule removeDuplicatedSlashes_joinSlash)
  have sb2: "splitSlash ?b2 = r" using ne sf by (rule splitSlash_joinSlash)
  show ?thesis
  proof (cases "d \<and> (?b2 = [] \<or> last ?b2 \<noteq> CHR ''/'')")
    case False
    then have bb: "b = ?b2" "d \<Longrightarrow> appendTrailingSlash ?b2 = ?b2"
      using b by (auto simp add: appendTrailingSlash_def)
    have "normalizeCollapsed d ?b2 = Inr ?b2"
      using normalizeCollapsed_segments [OF ne sf nd, of d] bb(2) by (cases d) simp_all
    with bb(1) rb2 sb2 hd S show ?thesis by simp
  next
    case True
    then have d: d and bb: "b = ?b2 @ ''/''"
      using b by (auto simp add: appendTrailingSlash_def)
    let ?r = "r @ [[]]"
    have jb: "joinSlash ?r = b" using ne bb by (simp add: joinSlash_snoc_empty)
    have 1: "?r \<noteq> []" by simp
    have 2: "\<forall>s\<in>set ?r. CHR ''/'' \<notin> set s" using sf by simp
    have 3: "''..'' \<notin> set (tl ?r)" using nd ne by simp
    have "appendTrailingSlash b = b" using bb by (simp add: appendTrailingSlash_def)
    then have n: "normalizeCollapsed d b = Inr b"
      using normalizeCollapsed_segments [OF 1 2 3, of d] d jb by simp
    have rb: "removeDuplicatedSlashes b = b"
    proof (cases "?b2 = []")
      case True
      with bb show ?thesis by simp
    next
      case False
      with True have "last ?b2 \<noteq> CHR ''/''" by simp
      from removeDuplicatedSlashes_snoc [OF False this, of "''/''"] rb2 bb show ?thesis by simp
    qed
    have "splitSlash b = ?r" using bb sb2 by (simp add: splitSlash_snoc_slash)
    then have "hd (splitSlash b) = hd (splitSlash x)" using ne hd S by simp
    with rb n show ?thesis by simp
  qed
qed

text \<open>
  Normalization is idempotent wherever its result is not the empty string: if
  \<open>normalizePath unc p d\<close> succeeds with a non-empty path \<open>q\<close>, then \<open>normalizePath unc q d\<close>
  succeeds with \<open>q\<close> again, for files and directories, with and without
  \<open>normalizeUNCPaths\<close>.
\<close>

lemma normalizePath_idempotent:
  assumes "normalizePath unc p d = Inr q" and "q \<noteq> []"
  shows "normalizePath unc q d = Inr q"
proof -
  let ?x = "removeDuplicatedSlashes p"
  let ?unc = "unc \<and> startsWithDuplicatedSlash p"
  from assms(1) have absp: "isAbsolutePath p"
    by (simp add: normalizePath_def split: if_splits)
  with assms(1) obtain b where nc: "normalizeCollapsed d ?x = Inr b"
    and q: "q = (if ?unc then CHR ''/'' # b else b)"
    by (auto simp add: normalizePath_collapsed split: sum.splits)
  have rb: "removeDuplicatedSlashes b = b" and nb: "normalizeCollapsed d b = Inr b"
    and hb: "hd (splitSlash b) = hd (splitSlash p)"
    using normalizeCollapsed_fixed [OF nc removeDuplicatedSlashes_idem]
    by (simp_all add: hd_splitSlash_removeDuplicatedSlashes)
  have absb: "isAbsolutePath b" if "b \<noteq> []"
    using absp that hb unfolding isAbsolutePath_segments [of b] isAbsolutePath_segments [of p] by auto
  show ?thesis
  proof (cases ?unc)
    case False
    with q assms(2) have qb: "q = b" and "b \<noteq> []" by simp_all
    with absb not_startsWithDuplicatedSlash [OF rb] rb nb show ?thesis
      by (simp add: normalizePath_collapsed)
  next
    case True
    then obtain cs where p: "p = CHR ''/'' # CHR ''/'' # cs"
      unfolding startsWithDuplicatedSlash_def by (cases p; cases "tl p") (auto split: if_splits)
    then have "hd (splitSlash b) = []" using hb by simp
    from True q have qb: "q = CHR ''/'' # b" by simp
    show ?thesis
    proof (cases b)
      case Nil
      with qb show ?thesis by (simp add: normalizePath_root)
    next
      case (Cons c b')
      with \<open>hd (splitSlash b) = []\<close> have c: "c = CHR ''/''" by (simp split: if_splits)
      have aq: "isAbsolutePath q" using qb by (simp add: isAbsolutePath_def charAt_def)
      have sq: "startsWithDuplicatedSlash q" using qb Cons c by (simp add: startsWithDuplicatedSlash_def)
      have rq: "removeDuplicatedSlashes q = b" using qb Cons c rb by simp
      from aq sq rq nb True qb show ?thesis by (simp add: normalizePath_collapsed)
    qed
  qed
qed

text \<open>An instance: a UNC directory path with a duplicated slash and a \<open>".."\<close> segment.\<close>

lemma normalizePath_idempotent_instance:
  "normalizePath True ''//srv//share/x/../'' True = Inr ''//srv/share/'' \<and> ''//srv/share/'' \<noteq> []
   \<and> normalizePath True ''//srv/share/'' True = Inr ''//srv/share/''"
proof -
  have 1: "normalizePath True ''//srv//share/x/../'' True = Inr ''//srv/share/''"
    by (simp add: normalizePath_def isAbsolutePath_def charAt_def startsWithDuplicatedSlash_def
        appendTrailingSlash_def Let_def removeDotDotSegments.simps)
  have 2: "''//srv/share/'' \<noteq> []" by simp
  from 1 2 normalizePath_idempotent [OF 1 2] show ?thesis by (intro conjI)
qed

text \<open>
  Claim C4, the code at the failing input. The file path \<open>"/a/.."\<close> is absolute and
  normalizes to the empty string. The empty string is not absolute, so normalizing the
  result raises instead of returning it. As a directory the same path normalizes to
  \<open>"/"\<close>, which normalizes to itself.
\<close>

theorem normalizePath_not_idempotent:
  "isAbsolutePath ''/a/..'' \<and>
   normalizePath False ''/a/..'' False = Inr '''' \<and>
   \<not> isAbsolutePath '''' \<and>
   normalizePath False '''' False = Inl (AbsolutePathRequired '''') \<and>
   normalizePath False ''/a/..'' True = Inr ''/'' \<and>
   normalizePath False ''/'' True = Inr ''/''"
  by (simp add: normalizePath_def isAbsolutePath_def charAt_def startsWithDuplicatedSlash_def Let_def
      appendTrailingSlash_def removeDotDotSegments.simps)

text \<open>
  Claim C5. For an absolute path that contains \<open>".."\<close>, the result of \<open>_normalizePath\<close> is
  that of the scan of its segments from index 1. In the scan, a \<open>".."\<close> at an index below
  2 raises \<open>InvalidPath\<close>; at an index \<open>j \<ge> 2\<close> the segments \<open>j - 1\<close> and \<open>j\<close> are
  removed and the scan goes on at \<open>j - 2 + 1\<close>. So a segment followed by \<open>".."\<close> cancels
  against it when no \<open>".."\<close> comes before, \<open>getFileForPath "/../a"\<close> raises \<open>InvalidPath\<close>
  and \<open>"/a/b/../c"\<close> normalizes to \<open>"/a/c"\<close>.
\<close>

theorem dotdot_scan:
  "(isAbsolutePath p \<and> containsDotDot (removeDuplicatedSlashes p) \<longrightarrow>
      normalizePath unc p d =
        (case removeDotDotSegments (removeDuplicatedSlashes p) (splitSlash (removeDuplicatedSlashes p)) 1 of
           Inl e \<Rightarrow> Inl e
         | Inr segments \<Rightarrow>
             Inr ((if unc \<and> startsWithDuplicatedSlash p then ''/'' else []) @
                  (if d then appendTrailingSlash (joinSlash segments) else joinSlash segments)))) \<and>
   (i < length segs \<and> segs ! i = ''..'' \<and> i < 2 \<longrightarrow>
      removeDotDotSegments path segs i = Inl (InvalidPath path)) \<and>
   (j < length segs' \<and> segs' ! j = ''..'' \<and> 2 \<le> j \<longrightarrow>
      removeDotDotSegments path segs' j =
      removeDotDotSegments path (take (j - 1) segs' @ drop (j + 1) segs') (j - 1)) \<and>
   (pre \<noteq> [] \<and> ''..'' \<notin> set (tl pre) \<and> b \<noteq> ''..'' \<longrightarrow>
      removeDotDotSegments path (pre @ b # ''..'' # rest) 1 = removeDotDotSegments path (pre @ rest) 1) \<and>
   getFileForPath ''/../a'' s = Inl (InvalidPath ''/../a'') \<and>
   normalizePath unc ''/a/b/../c'' False = Inr ''/a/c''"
proof (intro conjI impI)
  assume "isAbsolutePath p \<and> containsDotDot (removeDuplicatedSlashes p)"
  then show "normalizePath unc p d =
        (case removeDotDotSegments (removeDuplicatedSlashes p) (splitSlash (removeDuplicatedSlashes p)) 1 of
           Inl e \<Rightarrow> Inl e
         | Inr segments \<Rightarrow>
             Inr ((if unc \<and> startsWithDuplicatedSlash p then ''/'' else []) @
                  (if d then appendTrailingSlash (joinSlash segments) else joinSlash segments)))"
    by (cases "removeDotDotSegments (removeDuplicatedSlashes p) (splitSlash (removeDuplicatedSlashes p)) 1")
       (simp_all add: normalizePath_def Let_def)
next
  assume "i < length segs \<and> segs ! i = ''..'' \<and> i < 2"
  then show "removeDotDotSegments path segs i = Inl (InvalidPath path)"
    by (subst removeDotDotSegments.simps) simp
next
  assume a: "j < length segs' \<and> segs' ! j = ''..'' \<and> 2 \<le> j"
  then have "2 \<le> j" by simp
  then have "j - 2 + 1 = j - 1" by simp
  with a show "removeDotDotSegments path segs' j =
      removeDotDotSegments path (take (j - 1) segs' @ drop (j + 1) segs') (j - 1)"
    by (subst removeDotDotSegments.simps) simp
next
  assume a: "pre \<noteq> [] \<and> ''..'' \<notin> set (tl pre) \<and> b \<noteq> ''..''"
  then obtain h t where pre: "pre = h # t" by (cases pre) auto
  with a have t: "''..'' \<notin> set t" and b: "b \<noteq> ''..''" by simp_all
  have "removeDotDotSegments path (pre @ b # ''..'' # rest) 1
      = resolveSegments path [h] (t @ b # ''..'' # rest)"
    using removeDotDotSegments_from_1 [of "pre @ b # ''..'' # rest" path] pre by simp
  also have "\<dots> = resolveSegments path ([h] @ t) (b # ''..'' # rest)"
    using t by (rule resolveSegments_plain)
  also have "\<dots> = resolveSegments path ([h] @ t) rest"
    using b by simp
  also have "\<dots> = resolveSegments path [h] (t @ rest)"
    using t by (rule resolveSegments_plain [symmetric])
  also have "\<dots> = removeDotDotSegments path (pre @ rest) 1"
    using removeDotDotSegments_from_1 [of "pre @ rest" path] pre by simp
  finally show "removeDotDotSegments path (pre @ b # ''..'' # rest) 1
      = removeDotDotSegments path (pre @ rest) 1" .
next
  have "normalizePath u ''/../a'' False = Inl (InvalidPath ''/../a'')" for u
    by (simp add: normalizePath_def isAbsolutePath_def charAt_def startsWithDuplicatedSlash_def
        Let_def removeDotDotSegments.simps)
  then show "getFileForPath ''/../a'' s = Inl (InvalidPath ''/../a'')"
    by (simp add: getFileForPath_def getEntryForPath_def)
next
  show "normalizePath unc ''/a/b/../c'' False = Inr ''/a/c''"
    by (simp add: normalizePath_def isAbsolutePath_def charAt_def startsWithDuplicatedSlash_def
        Let_def removeDotDotSegments.simps)
qed

text \<open>An instance of each part of the theorem, on the path \<open>"/x/../y"\<close>.\<close>

theorem dotdot_scan_witness:
  "isAbsolutePath ''/x/../y'' \<and> containsDotDot (removeDuplicatedSlashes ''/x/../y'') \<and>
   normalizePath False ''/x/../y'' True = Inr ''/y/'' \<and>
   removeDotDotSegments ''/..'' ['''', ''..''] 1 = Inl (InvalidPath ''/..'') \<and>
   removeDotDotSegments ''/x/../y'' ['''', ''x'', ''..'', ''y''] 2
     = removeDotDotSegments ''/x/../y'' ['''', ''y''] 1 \<and>
   removeDotDotSegments ''/x/../y'' ['''', ''x'', ''..'', ''y''] 1
     = removeDotDotSegments ''/x/../y'' ['''', ''y''] 1"
proof -
  have h: "isAbsolutePath ''/x/../y''" "containsDotDot (removeDuplicatedSlashes ''/x/../y'')"
    by (simp_all add: isAbsolutePath_def charAt_def)
  have e: "removeDuplicatedSlashes ''/x/../y'' = ''/x/../y''"
    "splitSlash ''/x/../y'' = ['''', ''x'', ''..'', ''y'']" by simp_all
  have r: "removeDotDotSegments ''/x/../y'' ['''', ''x'', ''..'', ''y''] (Suc 0) = Inr ['''', ''y'']"
    by (simp add: removeDotDotSegments.simps)
  note t = dotdot_scan [where p = "''/x/../y''" and unc = False and d = True
      and i = 1 and segs = "['''', ''..'']" and path = "''/x/../y''"
      and j = 2 and segs' = "['''', ''x'', ''..'', ''y'']"
      and pre = "['''']" and b = "''x''" and rest = "[''y'']"
      and s = "newFileSystem True False :: (unit, unit) fileSystem"]
  have 1: "normalizePath False ''/x/../y'' True = Inr ''/y/''"
    using t h by (simp add: e r appendTrailingSlash_def)
  have 2: "removeDotDotSegments ''/..'' ['''', ''..''] 1 = Inl (InvalidPath ''/..'')"
    using dotdot_scan [where i = 1 and segs = "['''', ''..'']" and path = "''/..''"
        and s = "newFileSystem True False :: (unit, unit) fileSystem"] by simp
  have 3: "removeDotDotSegments ''/x/../y'' ['''', ''x'', ''..'', ''y''] 2
     = removeDotDotSegments ''/x/../y'' ['''', ''y''] 1"
    using t by simp
  have 4: "removeDotDotSegments ''/x/../y'' ['''', ''x'', ''..'', ''y''] 1
     = removeDotDotSegments ''/x/../y'' ['''', ''y''] 1"
    using t by simp
  from h 1 2 3 4 show ?thesis by (intro conjI)
qed

subsection \<open>Interned entries\<close>

lemma getEntryForPath_hit:
  "normalizePath (normalizeUNCPaths s) p (c = Directory) = Inr q \<Longrightarrow> getEntry (index s) q = Some e
   \<Longrightarrow> getEntryForPath c p s = Inr (e, s)"
  by (simp add: getEntryForPath_def)

lemma getEntryForPath_miss:
  "normalizePath (normalizeUNCPaths s) p (c = Directory) = Inr q \<Longrightarrow> getEntry (index s) q = None
   \<Longrightarrow> getEntryForPath c p s =
       Inr (\<lparr>eid = nextId s, fullPath = q, constructedBy = c\<rparr>,
            s\<lparr>index := addEntry \<lparr>eid = nextId s, fullPath = q, constructedBy = c\<rparr> (index s),
              nextId := Suc (nextId s)\<rparr>)"
  by (simp add: getEntryForPath_def Let_def)

lemma getEntry_addEntry: "getEntry (addEntry e idx) (fullPath e) = Some e"
  by (simp add: getEntry_def addEntry_def update_conv')

lemma getEntryForPath_interns:
  assumes "normalizePath (normalizeUNCPaths s) p (c = Directory) = Inr q"
  obtains e s1 where "getEntryForPath c p s = Inr (e, s1)" and "getEntry (index s1) q = Some e"
    and "normalizeUNCPaths s1 = normalizeUNCPaths s"
    and "getEntry (index s) q = None \<Longrightarrow> e = \<lparr>eid = nextId s, fullPath = q, constructedBy = c\<rparr>"
    and "\<And>e'. getEntry (index s) q = Some e' \<Longrightarrow> e = e'"
proof (cases "getEntry (index s) q")
  case None
  let ?e = "\<lparr>eid = nextId s, fullPath = q, constructedBy = c\<rparr>"
  let ?s = "s\<lparr>index := addEntry ?e (index s), nextId := Suc (nextId s)\<rparr>"
  show thesis
  proof (rule that [of ?e ?s])
    show "getEntryForPath c p s = Inr (?e, ?s)"
      using getEntryForPath_miss [OF assms None] .
    show "getEntry (index ?s) q = Some ?e"
      using getEntry_addEntry [of ?e "index s"] by simp
    show "normalizeUNCPaths ?s = normalizeUNCPaths s" by simp
    show "?e = ?e" ..
    show "?e = e'" if "getEntry (index s) q = Some e'" for e'
      using that None by simp
  qed
next
  case (Some e)
  show thesis
  proof (rule that [of e s])
    show "getEntryForPath c p s = Inr (e, s)"
      using getEntryForPath_hit [OF assms Some] .
    show "getEntry (index s) q = Some e" by fact
    show "normalizeUNCPaths s = normalizeUNCPaths s" ..
    show "e = \<lparr>eid = nextId s, fullPath = q, constructedBy = c\<rparr>" if "getEntry (index s) q = None"
      using that Some by simp
    show "e = e'" if "getEntry (index s) q = Some e'" for e'
      using that Some by simp
  qed
qed

lemma getEntry_indexInvariant:
  "indexInvariant idx \<Longrightarrow> getEntry idx q = Some e \<Longrightarrow> fullPath e = q"
proof -
  assume a: "indexInvariant idx" and b: "getEntry idx q = Some e"
  from b have "(q, e) \<in> set idx" unfolding getEntry_def by (rule map_of_SomeD)
  with a show ?thesis unfolding indexInvariant_def list_all_iff by fastforce
qed

lemma getEntryForPath_twice:
  assumes 1: "normalizePath (normalizeUNCPaths s) p1 (c = Directory) = Inr q"
      and 2: "normalizePath (normalizeUNCPaths s) p2 (c = Directory) = Inr q"
  shows "\<exists>e s1. getEntryForPath c p1 s = Inr (e, s1) \<and> getEntryForPath c p2 s1 = Inr (e, s1)
           \<and> (indexInvariant (index s) \<longrightarrow> fullPath e = q)"
proof (rule getEntryForPath_interns [OF 1])
  fix e s1
  assume a: "getEntryForPath c p1 s = Inr (e, s1)" and b: "getEntry (index s1) q = Some e"
    and u: "normalizeUNCPaths s1 = normalizeUNCPaths s"
    and n: "getEntry (index s) q = None \<Longrightarrow> e = \<lparr>eid = nextId s, fullPath = q, constructedBy = c\<rparr>"
    and o: "\<And>e'. getEntry (index s) q = Some e' \<Longrightarrow> e = e'"
  from 2 u have "normalizePath (normalizeUNCPaths s1) p2 (c = Directory) = Inr q" by simp
  then have c: "getEntryForPath c p2 s1 = Inr (e, s1)" using b by (rule getEntryForPath_hit)
  have "fullPath e = q" if "indexInvariant (index s)"
  proof (cases "getEntry (index s) q")
    case None with n [OF None] show ?thesis by simp
  next
    case (Some e')
    with o have "e = e'" by simp
    with Some getEntry_indexInvariant [OF that] show ?thesis by simp
  qed
  then have "indexInvariant (index s) \<longrightarrow> fullPath e = q" by simp
  with a c show ?thesis by (intro exI conjI)
qed

text \<open>
  Claim C3. Two paths with the same normal form give the same handle: when \<open>p1\<close> and
  \<open>p2\<close> normalize (as files) to the same path \<open>q\<close>, \<open>getFileForPath p1\<close> and then
  \<open>getFileForPath p2\<close> return the same entry object \<open>e\<close>, the second call finding it in
  the index and changing nothing; likewise for \<open>getDirectoryForPath\<close> with the
  normalization as directories. Where the index stores every entry under its own path,
  the handle has \<open>fullPath = q\<close>; in particular \<open>"/a//b/../b/c.txt"\<close> and \<open>"/a/b/c.txt"\<close>
  give one handle with \<open>fullPath = "/a/b/c.txt"\<close>.
\<close>

theorem interned_handles:
  "(normalizePath (normalizeUNCPaths s) p1 False = Inr q \<and>
    normalizePath (normalizeUNCPaths s) p2 False = Inr q \<longrightarrow>
      (\<exists>e s1. getFileForPath p1 s = Inr (e, s1) \<and> getFileForPath p2 s1 = Inr (e, s1)
         \<and> (indexInvariant (index s) \<longrightarrow> fullPath e = q))) \<and>
   (normalizePath (normalizeUNCPaths s) p1 True = Inr q' \<and>
    normalizePath (normalizeUNCPaths s) p2 True = Inr q' \<longrightarrow>
      (\<exists>e s1. getDirectoryForPath p1 s = Inr (e, s1) \<and> getDirectoryForPath p2 s1 = Inr (e, s1)
         \<and> (indexInvariant (index s) \<longrightarrow> fullPath e = q'))) \<and>
   (indexInvariant (index s) \<longrightarrow>
      (\<exists>e s1. getFileForPath ''/a//b/../b/c.txt'' s = Inr (e, s1) \<and>
         getFileForPath ''/a/b/c.txt'' s1 = Inr (e, s1) \<and> fullPath e = ''/a/b/c.txt''))"
proof -
  have n1: "normalizePath u ''/a//b/../b/c.txt'' False = Inr ''/a/b/c.txt''" for u
    by (simp add: normalizePath_def isAbsolutePath_def charAt_def startsWithDuplicatedSlash_def
        removeDotDotSegments.simps)
  have n2: "normalizePath u ''/a/b/c.txt'' False = Inr ''/a/b/c.txt''" for u
    by (simp add: normalizePath_def isAbsolutePath_def charAt_def startsWithDuplicatedSlash_def
        removeDotDotSegments.simps)
  have 3: "\<exists>e s1. getFileForPath ''/a//b/../b/c.txt'' s = Inr (e, s1) \<and>
         getFileForPath ''/a/b/c.txt'' s1 = Inr (e, s1) \<and> (indexInvariant (index s) \<longrightarrow> fullPath e = ''/a/b/c.txt'')"
    unfolding getFileForPath_def
    using getEntryForPath_twice [of s "''/a//b/../b/c.txt''" File "''/a/b/c.txt''" "''/a/b/c.txt''"] n1 n2
    by simp
  show ?thesis
  proof (intro conjI impI)
    assume "normalizePath (normalizeUNCPaths s) p1 False = Inr q \<and>
      normalizePath (normalizeUNCPaths s) p2 False = Inr q"
    then show "\<exists>e s1. getFileForPath p1 s = Inr (e, s1) \<and> getFileForPath p2 s1 = Inr (e, s1)
         \<and> (indexInvariant (index s) \<longrightarrow> fullPath e = q)"
      unfolding getFileForPath_def using getEntryForPath_twice [of s p1 File q p2] by simp
  next
    assume "normalizePath (normalizeUNCPaths s) p1 True = Inr q' \<and>
      normalizePath (normalizeUNCPaths s) p2 True = Inr q'"
    then show "\<exists>e s1. getDirectoryForPath p1 s = Inr (e, s1) \<and> getDirectoryForPath p2 s1 = Inr (e, s1)
         \<and> (indexInvariant (index s) \<longrightarrow> fullPath e = q')"
      unfolding getDirectoryForPath_def using getEntryForPath_twice [of s p1 Directory q' p2] by simp
  next
    assume "indexInvariant (index s)"
    with 3 show "\<exists>e s1. getFileForPath ''/a//b/../b/c.txt'' s = Inr (e, s1) \<and>
         getFileForPath ''/a/b/c.txt'' s1 = Inr (e, s1) \<and> fullPath e = ''/a/b/c.txt''"
      by blast
  qed
qed

text \<open>
  Claim C10. \<open>close\<close> calls the backend's \<open>unwatchAll\<close> and clears the index, and leaves
  every other component of the state as it was: the watched roots with their \<open>active\<close>
  flags, the queue of watch requests, the queued external changes and
  \<open>activeChangeCount\<close>.
\<close>

theorem close_frame:
  "close s = s\<lparr>index := [], trace := trace s @ [ImplUnwatchAll]\<rparr>"
  by (simp add: close_def emit_def)

lemma root_shared_aux:
  "\<exists>e s1. getEntryForPath c ''/'' s = Inr (e, s1) \<and> getEntryForPath c' ''/'' s1 = Inr (e, s1)
      \<and> (getEntry (index s) ''/'' = None \<longrightarrow> constructedBy e = c)"
proof (rule getEntryForPath_interns [of s "''/''" c "''/''"])
  show "normalizePath (normalizeUNCPaths s) ''/'' (c = Directory) = Inr ''/''"
    by (rule normalizePath_root)
next
  fix e s1
  assume 1: "getEntryForPath c ''/'' s = Inr (e, s1)" and 2: "getEntry (index s1) ''/'' = Some e"
    and 3: "getEntry (index s) ''/'' = None \<Longrightarrow> e = \<lparr>eid = nextId s, fullPath = ''/'', constructedBy = c\<rparr>"
  have n: "\<And>d u. normalizePath u ''/'' d = Inr ''/''" by (rule normalizePath_root)
  have 4: "getEntryForPath c' ''/'' s1 = Inr (e, s1)"
    using getEntryForPath_hit[OF n 2] .
  have 5: "getEntry (index s) ''/'' = None \<longrightarrow> constructedBy e = c"
    using 3 by simp
  from 1 4 5 show ?thesis by (intro exI conjI)
qed

text \<open>
  Claim C9. The path \<open>"/"\<close> normalizes to \<open>"/"\<close> both as a file and as a directory, so
  \<open>getFileForPath "/"\<close> and \<open>getDirectoryForPath "/"\<close> use the same key of the index and
  return the same entry object: the call that comes first constructs it (a \<open>File\<close> or a
  \<open>Directory\<close> when the index had no entry for \<open>"/"\<close>), and the later call of the
  other kind returns that object.
\<close>

theorem root_shared:
  "normalizePath unc ''/'' False = Inr ''/'' \<and> normalizePath unc ''/'' True = Inr ''/'' \<and>
   (\<exists>e s1. getFileForPath ''/'' s = Inr (e, s1) \<and> getDirectoryForPath ''/'' s1 = Inr (e, s1)
      \<and> (getEntry (index s) ''/'' = None \<longrightarrow> constructedBy e = File)) \<and>
   (\<exists>e s1. getDirectoryForPath ''/'' s = Inr (e, s1) \<and> getFileForPath ''/'' s1 = Inr (e, s1)
      \<and> (getEntry (index s) ''/'' = None \<longrightarrow> constructedBy e = Directory))"
  unfolding getFileForPath_def getDirectoryForPath_def
  by (intro conjI normalizePath_root root_shared_aux)


theorem interned_handles_witness:
  "normalizePath False ''/x//y'' False = Inr ''/x/y'' \<and> normalizePath False ''/x/y'' False = Inr ''/x/y'' \<and>
   normalizePath False ''/x//y'' True = Inr ''/x/y/'' \<and> normalizePath False ''/x/y'' True = Inr ''/x/y/'' \<and>
   indexInvariant (index (newFileSystem True False :: (unit, unit) fileSystem)) \<and>
   (\<exists>e s1. getFileForPath ''/x//y'' (newFileSystem True False :: (unit, unit) fileSystem) = Inr (e, s1)
       \<and> getFileForPath ''/x/y'' s1 = Inr (e, s1) \<and> fullPath e = ''/x/y'') \<and>
   (\<exists>e s1. getDirectoryForPath ''/x//y'' (newFileSystem True False :: (unit, unit) fileSystem) = Inr (e, s1)
       \<and> getDirectoryForPath ''/x/y'' s1 = Inr (e, s1) \<and> fullPath e = ''/x/y/'') \<and>
   (\<exists>e s1. getFileForPath ''/a//b/../b/c.txt'' (newFileSystem True False :: (unit, unit) fileSystem) = Inr (e, s1) \<and>
         getFileForPath ''/a/b/c.txt'' s1 = Inr (e, s1) \<and> fullPath e = ''/a/b/c.txt'')"
proof -
  let ?s = "newFileSystem True False :: (unit, unit) fileSystem"
  have u: "normalizeUNCPaths ?s = False" and i: "indexInvariant (index ?s)"
    by (simp_all add: newFileSystem_def indexInvariant_def)
  have n: "normalizePath False ''/x//y'' False = Inr ''/x/y''" "normalizePath False ''/x/y'' False = Inr ''/x/y''"
    "normalizePath False ''/x//y'' True = Inr ''/x/y/''" "normalizePath False ''/x/y'' True = Inr ''/x/y/''"
    by (simp_all add: normalizePath_def isAbsolutePath_def charAt_def startsWithDuplicatedSlash_def
        appendTrailingSlash_def Let_def)
  show ?thesis
    using interned_handles [of ?s "''/x//y''" "''/x/y''" "''/x/y''" "''/x/y/''"] n i
    by (simp only: u simp_thms)
qed


theorem root_shared_witness:
  "getEntry (index (newFileSystem True False :: (unit, unit) fileSystem)) ''/'' = None \<and>
   (\<exists>e s1. getFileForPath ''/'' (newFileSystem True False :: (unit, unit) fileSystem) = Inr (e, s1)
      \<and> getDirectoryForPath ''/'' s1 = Inr (e, s1) \<and> constructedBy e = File) \<and>
   (\<exists>e s1. getDirectoryForPath ''/'' (newFileSystem True False :: (unit, unit) fileSystem) = Inr (e, s1)
      \<and> getFileForPath ''/'' s1 = Inr (e, s1) \<and> constructedBy e = Directory)"
proof -
  let ?s = "newFileSystem True False :: (unit, unit) fileSystem"
  have i: "getEntry (index ?s) ''/'' = None"
    by (simp add: newFileSystem_def getEntry_def)
  show ?thesis
    using root_shared [of True ?s] by (simp only: i simp_thms)
qed


subsection \<open>Watched roots\<close>

lemma visitAll_nextId:
  "(\<And>child s. nextId (visitor child s) = nextId s) \<Longrightarrow> nextId (visitAll visitor idx s) = nextId s"
  unfolding visitAll_def by (induction idx arbitrary: s) auto

lemma nextId_emit [simp]: "nextId (emit ev s) = nextId s"
  by (simp add: emit_def)

lemma nextId_invokeCallback [simp]: "nextId (invokeCallback cb err s) = nextId s"
  by (cases cb) (simp_all add: invokeCallback_def)

lemma nextId_clearCachedDataBelow [simp]: "nextId (clearCachedDataBelow e s) = nextId s"
  unfolding clearCachedDataBelow_def by (rule visitAll_nextId) (simp add: clearCachedData_def)

lemma nextId_removeEntriesBelow [simp]: "nextId (removeEntriesBelow e s) = nextId s"
  unfolding removeEntriesBelow_def by (rule visitAll_nextId) simp

lemma nextId_countdown [simp]: "nextId (countdown k s) = nextId s"
  by (simp add: countdown_def directoryChanged_def setStat_def Let_def
      split: option.splits directoryChange.splits)

lemma nextId_applyRequestCb [simp]: "nextId (applyRequestCb cb err s) = nextId s"
  by (cases cb) (simp_all add: Let_def)

lemma nextId_enqueueWatchRequest [simp]: "nextId (enqueueWatchRequest r s) = nextId s"
  by (simp add: enqueueWatchRequest_def dequeueWatchRequest_def Let_def)

lemma nextId_watchOrUnwatchEntry [simp]: "nextId (watchOrUnwatchEntry e r cb b s) = nextId s"
  by (simp add: watchOrUnwatchEntry_def)

lemma findWatchedRootForPath_active:
  "findWatchedRootForPath roots p = Some r \<Longrightarrow> active r \<Longrightarrow>
     list_ex (\<lambda>(path, r). active r \<and> prefix path p) roots"
  by (induction roots) (auto simp add: findWatchedRootForPath_def split: if_splits)

lemma findWatchedRootForPath_all_active:
  "list_ex (\<lambda>(path, r). active r \<and> prefix path p) roots \<Longrightarrow>
   list_all (\<lambda>(path, r). prefix path p \<longrightarrow> active r) roots \<Longrightarrow>
     \<exists>r. findWatchedRootForPath roots p = Some r \<and> active r"
  by (induction roots) (auto simp add: findWatchedRootForPath_def)

lemma watch_cases:
  "watch entry f callback s =
     (if (\<exists>r. findWatchedRootForPath (watchedRoots s) (fullPath entry) = Some r \<and> active r)
      then invokeCallback callback (Some ParentAlreadyWatched) s
      else watchOrUnwatchEntry entry
             \<lparr>rid = nextId s, rootEntry = entry, filter' = f, active = False\<rparr>
             (WatchRootCb entry (nextId s) callback) True
             (s\<lparr>watchedRoots := AList.update (fullPath entry)
                    \<lparr>rid = nextId s, rootEntry = entry, filter' = f, active = False\<rparr> (watchedRoots s),
                nextId := Suc (nextId s)\<rparr>))"
  by (cases "findWatchedRootForPath (watchedRoots s) (fullPath entry)")
     (simp_all add: watch_def Let_def activeOfBoolean_def)

lemma watch_fails_iff:
  "watchFailsWith ParentAlreadyWatched entry f c s \<longleftrightarrow>
   (\<exists>r. findWatchedRootForPath (watchedRoots s) (fullPath entry) = Some r \<and> active r)"
proof (cases "\<exists>r. findWatchedRootForPath (watchedRoots s) (fullPath entry) = Some r \<and> active r")
  case True
  then show ?thesis
    unfolding watchFailsWith_def watch_cases by (simp add: invokeCallback_def)
next
  case False
  let ?s' = "watch entry f (Some c) s"
  from False have "nextId ?s' = Suc (nextId s)"
    unfolding watch_cases by simp
  then have "?s' \<noteq> emit (Callback c (Some ParentAlreadyWatched)) s"
    by (metis nextId_emit n_not_Suc_n)
  with False show ?thesis unfolding watchFailsWith_def by simp
qed

text \<open>
  Claim C6, as amended. \<open>watch\<close> fails with \<open>ParentAlreadyWatched\<close> only when some active
  watched root has a path that is a prefix of \<open>entry.fullPath\<close> or equal to it: the
  prefix is not strict, and a path equal to the path of an active root is rejected as
  well. It does fail when there is such a root and every watched root whose path is a
  prefix of \<open>entry.fullPath\<close> or equal to it is active. Nothing is said for the case that
  an inactive root with such a path is registered too.
\<close>

theorem watch_parent_check:
  "(watchFailsWith ParentAlreadyWatched entry f c s \<longrightarrow>
      list_ex (\<lambda>(path, r). active r \<and> prefix path (fullPath entry)) (watchedRoots s)) \<and>
   (list_ex (\<lambda>(path, r). active r \<and> prefix path (fullPath entry)) (watchedRoots s) \<and>
    list_all (\<lambda>(path, r). prefix path (fullPath entry) \<longrightarrow> active r) (watchedRoots s) \<longrightarrow>
      watchFailsWith ParentAlreadyWatched entry f c s)"
proof (intro conjI impI)
  assume "watchFailsWith ParentAlreadyWatched entry f c s"
  then obtain r where "findWatchedRootForPath (watchedRoots s) (fullPath entry) = Some r" "active r"
    unfolding watch_fails_iff by blast
  then show "list_ex (\<lambda>(path, r). active r \<and> prefix path (fullPath entry)) (watchedRoots s)"
    by (rule findWatchedRootForPath_active)
next
  assume "list_ex (\<lambda>(path, r). active r \<and> prefix path (fullPath entry)) (watchedRoots s) \<and>
    list_all (\<lambda>(path, r). prefix path (fullPath entry) \<longrightarrow> active r) (watchedRoots s)"
  then have "\<exists>r. findWatchedRootForPath (watchedRoots s) (fullPath entry) = Some r \<and> active r"
    by (intro findWatchedRootForPath_all_active) simp_all
  then show "watchFailsWith ParentAlreadyWatched entry f c s"
    unfolding watch_fails_iff .
qed

text \<open>In no state does \<open>watch\<close> fail with \<open>ChildAlreadyWatched\<close>.\<close>

lemma watch_never_child_error:
  "\<not> watchFailsWith ChildAlreadyWatched entry f c s"
proof (cases "\<exists>r. findWatchedRootForPath (watchedRoots s) (fullPath entry) = Some r \<and> active r")
  case True
  have "Callback c (Some ParentAlreadyWatched) \<noteq> Callback c (Some ChildAlreadyWatched)"
    by (simp add: ParentAlreadyWatched_def ChildAlreadyWatched_def)
  then have "trace (emit (Callback c (Some ParentAlreadyWatched)) s)
      \<noteq> trace (emit (Callback c (Some ChildAlreadyWatched)) s)"
    by (simp add: emit_def)
  then have "emit (Callback c (Some ParentAlreadyWatched)) s
      \<noteq> emit (Callback c (Some ChildAlreadyWatched)) s" by auto
  with True show ?thesis
    unfolding watchFailsWith_def watch_cases by (simp add: invokeCallback_def)
next
  case False
  let ?s' = "watch entry f (Some c) s"
  from False have "nextId ?s' = Suc (nextId s)"
    unfolding watch_cases by simp
  then have "?s' \<noteq> emit (Callback c (Some ChildAlreadyWatched)) s"
    by (metis nextId_emit n_not_Suc_n)
  then show ?thesis unfolding watchFailsWith_def by simp
qed

lemma getDirectoryForPath_proj:
  "getDirectoryForPath ''/proj'' (newFileSystem True False :: (unit, nat) fileSystem)
     = Inr (projDir, (newFileSystem True False)\<lparr>index := [(''/proj/'', projDir)], nextId := 1\<rparr>)"
  by (simp add: getDirectoryForPath_def getEntryForPath_def normalizePath_def isAbsolutePath_def
      charAt_def startsWithDuplicatedSlash_def appendTrailingSlash_def Let_def newFileSystem_def
      getEntry_def addEntry_def projDir_def)

lemma projWatched_eq:
  "projWatched =
     \<lparr>recursiveWatch = True, normalizeUNCPaths = False, index = [(''/proj/'', projDir)],
      entryData = (\<lambda>_. noCachedData),
      watchedRoots = [(''/proj/'', \<lparr>rid = 1, rootEntry = projDir, filter' = (), active = True\<rparr>)],
      watchRequests = [], requestCount = None, directoryChanges = [],
      externalChanges = [], activeChangeCount = 0, nextId = 2,
      trace = [RequestStarted (Request True projDir (WatchRootCb projDir 1 (Some 1))),
               ContinuationApplied (Request True projDir (WatchRootCb projDir 1 (Some 1))) None,
               Callback 1 None]\<rparr>"
  unfolding projWatched_def
  by (simp add: getDirectoryForPath_proj watch_cases findWatchedRootForPath_def
      watchOrUnwatchEntry_def enqueueWatchRequest_def dequeueWatchRequest_def emit_def Let_def
      requestDone_def requestContinuation_def truthy_def invokeCallback_def setActive_def)
    (simp add: newFileSystem_def projDir_def)

text \<open>An instance: the roots \<open>/lib/\<close>, not active yet, and \<open>/proj/\<close>, active. Watching
  \<open>/proj/sub/\<close> fails because of the second one; the path of the first one is no prefix
  of \<open>/proj/sub/\<close>.\<close>

theorem watch_parent_check_witness:
  "list_ex (\<lambda>(path, r). active r \<and> prefix path ''/proj/sub/'')
     ((''/lib/'', \<lparr>rid = 9, rootEntry = \<lparr>eid = 8, fullPath = ''/lib/'', constructedBy = Directory\<rparr>,
                    filter' = (), active = False\<rparr>) # watchedRoots projWatched) \<and>
   list_all (\<lambda>(path, r). prefix path ''/proj/sub/'' \<longrightarrow> active r)
     ((''/lib/'', \<lparr>rid = 9, rootEntry = \<lparr>eid = 8, fullPath = ''/lib/'', constructedBy = Directory\<rparr>,
                    filter' = (), active = False\<rparr>) # watchedRoots projWatched) \<and>
   watchFailsWith ParentAlreadyWatched
     \<lparr>eid = 5, fullPath = ''/proj/sub/'', constructedBy = Directory\<rparr> () 7
     (projWatched\<lparr>watchedRoots :=
        (''/lib/'', \<lparr>rid = 9, rootEntry = \<lparr>eid = 8, fullPath = ''/lib/'', constructedBy = Directory\<rparr>,
                    filter' = (), active = False\<rparr>) # watchedRoots projWatched\<rparr>)"
proof -
  let ?e = "\<lparr>eid = 5, fullPath = ''/proj/sub/'', constructedBy = Directory\<rparr>"
  let ?roots = "(''/lib/'', \<lparr>rid = 9, rootEntry = \<lparr>eid = 8, fullPath = ''/lib/'', constructedBy = Directory\<rparr>,
                    filter' = (), active = False\<rparr>) # watchedRoots projWatched"
  let ?s = "projWatched\<lparr>watchedRoots := ?roots\<rparr>"
  have h1: "list_ex (\<lambda>(path, r). active r \<and> prefix path ''/proj/sub/'') ?roots"
    by (simp add: projWatched_eq)
  have h2: "list_all (\<lambda>(path, r). prefix path ''/proj/sub/'' \<longrightarrow> active r) ?roots"
    by (simp add: projWatched_eq)
  from h1 h2 have "list_ex (\<lambda>(path, r). active r \<and> prefix path (fullPath ?e)) (watchedRoots ?s) \<and>
      list_all (\<lambda>(path, r). prefix path (fullPath ?e) \<longrightarrow> active r) (watchedRoots ?s)"
    by simp
  with watch_parent_check [where entry = ?e and f = "()" and c = 7 and s = ?s]
  have "watchFailsWith ParentAlreadyWatched ?e () 7 ?s" by blast
  with h1 h2 show ?thesis by (intro conjI)
qed

text \<open>
  Claim C6 as stated fails: with \<open>/proj/\<close> the only watched root, and active, watching
  \<open>/proj/\<close> itself fails with \<open>ParentAlreadyWatched\<close> although no root has a path that is
  a strict prefix of \<open>/proj/\<close>.
\<close>

theorem watch_equal_path_rejected:
  "watchFailsWith ParentAlreadyWatched projDir () 7 projWatched \<and>
   map fst (watchedRoots projWatched) = [''/proj/''] \<and> fullPath projDir = ''/proj/'' \<and>
   \<not> strict_prefix ''/proj/'' ''/proj/''"
proof -
  have "watchFailsWith ParentAlreadyWatched projDir () 7 projWatched"
    unfolding watchFailsWith_def watch_cases
    by (simp add: projWatched_eq findWatchedRootForPath_def invokeCallback_def)
       (simp add: projDir_def)
  then show ?thesis by (simp add: projWatched_eq) (simp add: projDir_def)
qed

lemma getDirectoryForPath_root:
  "getDirectoryForPath ''/'' projWatched
     = Inr (rootDir, projWatched\<lparr>index := [(''/proj/'', projDir), (''/'', rootDir)], nextId := 3\<rparr>)"
  by (simp add: getDirectoryForPath_def getEntryForPath_def normalizePath_root projWatched_eq
      getEntry_def addEntry_def Let_def)
     (simp add: rootDir_def projDir_def)

text \<open>
  Claim C1, the code at the failing input. With \<open>/proj/\<close> watched and active, \<open>watch\<close> on
  \<open>/\<close>, a strict prefix of \<open>/proj/\<close>, does not fail: it registers \<open>/\<close> as a second root
  and starts the watch request, and the user callback is not applied. The test
  \<open>watchingChildRoot && watchingChildRoot.active\<close> reads a property of a boolean.
\<close>

theorem watch_child_root_accepted:
  "map fst (watchedRoots projWatched) = [''/proj/''] \<and>
   map (active \<circ> snd) (watchedRoots projWatched) = [True] \<and>
   fullPath rootDir = ''/'' \<and> strict_prefix ''/'' ''/proj/'' \<and>
   map fst (watchedRoots rootWatchCalled) = [''/proj/'', ''/''] \<and>
   map (active \<circ> snd) (watchedRoots rootWatchCalled) = [True, False] \<and>
   trace rootWatchCalled =
     trace projWatched @ [RequestStarted (Request True rootDir (WatchRootCb rootDir 3 (Some 2)))]"
proof -
  have 1: "map fst (watchedRoots projWatched) = [''/proj/'']"
    "map (active \<circ> snd) (watchedRoots projWatched) = [True]"
    by (simp_all add: projWatched_eq)
  have 2: "fullPath rootDir = ''/''" "strict_prefix ''/'' ''/proj/''"
    by (simp_all add: rootDir_def)
  have f: "findWatchedRootForPath (watchedRoots projWatched) ''/'' = None"
    by (simp add: projWatched_eq findWatchedRootForPath_def)
  have r: "rootWatchCalled =
      enqueueWatchRequest (Request True rootDir (WatchRootCb rootDir 3 (Some 2)))
        (projWatched\<lparr>index := [(''/proj/'', projDir), (''/'', rootDir)], nextId := 4,
           watchedRoots := watchedRoots projWatched @
             [(''/'', \<lparr>rid = 3, rootEntry = rootDir, filter' = (), active = False\<rparr>)]\<rparr>)"
    unfolding rootWatchCalled_def
    by (simp add: getDirectoryForPath_root watch_cases 2 f watchOrUnwatchEntry_def)
       (simp add: projWatched_eq)
  have 3: "map fst (watchedRoots rootWatchCalled) = [''/proj/'', ''/'']"
    "map (active \<circ> snd) (watchedRoots rootWatchCalled) = [True, False]"
    "trace rootWatchCalled =
       trace projWatched @ [RequestStarted (Request True rootDir (WatchRootCb rootDir 3 (Some 2)))]"
    unfolding r
    by (simp_all add: enqueueWatchRequest_def dequeueWatchRequest_def emit_def Let_def projWatched_eq)
  from 1 2 3 show ?thesis by (intro conjI)
qed


subsection \<open>Unwatching a root\<close>

lemma removeEntriesBelow_fold:
  "fold (\<lambda>(path, child) s'. if prefix root (fullPath child)
                                then s'\<lparr>index := removeEntry child (index s')\<rparr> else s') xs s
   = s\<lparr>index := fold (\<lambda>(path, child) idx. if prefix root (fullPath child)
                                then removeEntry child idx else idx) xs (index s)\<rparr>"
  by (induction xs arbitrary: s) (auto simp add: case_prod_beta)

lemma removeEntry_fold_filter:
  "fold (\<lambda>(path, child) idx. if prefix root (fullPath child) then removeEntry child idx else idx) xs idx
   = filter (\<lambda>(path, e). \<not> (\<exists>(path', child) \<in> set xs. prefix root (fullPath child) \<and> fullPath child = path)) idx"
proof (induction xs arbitrary: idx)
  case Nil
  show ?case by simp
next
  case (Cons x xs)
  obtain k c where x: "x = (k, c)" by (cases x)
  show ?case
  proof (cases "prefix root (fullPath c)")
    case True
    have "filter (\<lambda>(path, e). \<not> (\<exists>(path', child) \<in> set xs. prefix root (fullPath child) \<and> fullPath child = path))
            (removeEntry c idx)
        = filter (\<lambda>(path, e). \<not> (\<exists>(path', child) \<in> set (x # xs). prefix root (fullPath child) \<and> fullPath child = path)) idx"
      unfolding removeEntry_def AList.delete_eq x using True
      by (auto intro!: filter_cong simp add: case_prod_beta)
    with True Cons.IH [of "removeEntry c idx"] x show ?thesis by simp
  next
    case False
    have "filter (\<lambda>(path, e). \<not> (\<exists>(path', child) \<in> set xs. prefix root (fullPath child) \<and> fullPath child = path)) idx
        = filter (\<lambda>(path, e). \<not> (\<exists>(path', child) \<in> set (x # xs). prefix root (fullPath child) \<and> fullPath child = path)) idx"
      unfolding x using False by (auto intro!: filter_cong simp add: case_prod_beta)
    with False Cons.IH [of idx] x show ?thesis by simp
  qed
qed

lemma removeEntriesBelow_eq:
  assumes "indexInvariant (index s)"
  shows "removeEntriesBelow entry s
     = s\<lparr>index := filter (\<lambda>(path, child). \<not> prefix (fullPath entry) (fullPath child)) (index s)\<rparr>"
proof -
  have inv: "\<And>k e. (k, e) \<in> set (index s) \<Longrightarrow> fullPath e = k"
    using assms unfolding indexInvariant_def list_all_iff by fastforce
  have "filter (\<lambda>(path, e). \<not> (\<exists>(path', child) \<in> set (index s).
            prefix (fullPath entry) (fullPath child) \<and> fullPath child = path)) (index s)
      = filter (\<lambda>(path, child). \<not> prefix (fullPath entry) (fullPath child)) (index s)"
  proof (rule filter_cong [OF refl])
    fix x assume x: "x \<in> set (index s)"
    obtain k e where ke: "x = (k, e)" by (cases x)
    with x inv have fe: "fullPath e = k" by simp
    have "(\<exists>(path', child) \<in> set (index s). prefix (fullPath entry) (fullPath child) \<and> fullPath child = k)
        \<longleftrightarrow> prefix (fullPath entry) (fullPath e)"
    proof
      assume "\<exists>(path', child) \<in> set (index s). prefix (fullPath entry) (fullPath child) \<and> fullPath child = k"
      with fe show "prefix (fullPath entry) (fullPath e)" by auto
    next
      assume "prefix (fullPath entry) (fullPath e)"
      with x ke fe show "\<exists>(path', child) \<in> set (index s). prefix (fullPath entry) (fullPath child) \<and> fullPath child = k"
        by (intro bexI [of _ "(k, e)"]) auto
    qed
    then show "(case x of (path, e) \<Rightarrow> \<not> (\<exists>(path', child) \<in> set (index s).
            prefix (fullPath entry) (fullPath child) \<and> fullPath child = path))
        = (case x of (path, child) \<Rightarrow> \<not> prefix (fullPath entry) (fullPath child))"
      unfolding ke prod.case by (rule arg_cong [where f = Not])
  qed
  then show ?thesis
    unfolding removeEntriesBelow_def visitAll_def removeEntriesBelow_fold removeEntry_fold_filter
    by simp
qed

lemma clearCachedDataBelow_fold:
  "fold (\<lambda>(path, child) s'. if prefix root (fullPath child) then clearCachedData child s' else s') xs s
   = s\<lparr>entryData := fold (\<lambda>(path, child) d. if prefix root (fullPath child)
                                then d(eid child := noCachedData) else d) xs (entryData s)\<rparr>"
  by (induction xs arbitrary: s) (auto simp add: case_prod_beta clearCachedData_def)

lemma clearCachedDataBelow_eq:
  "clearCachedDataBelow entry s
   = s\<lparr>entryData := fold (\<lambda>(path, child) d. if prefix (fullPath entry) (fullPath child)
                                then d(eid child := noCachedData) else d) (index s) (entryData s)\<rparr>"
  unfolding clearCachedDataBelow_def visitAll_def by (rule clearCachedDataBelow_fold)

lemma map_of_delete_None: "map_of (AList.delete k al) k = None"
  by (simp add: delete_conv')

lemma index_clearCachedDataBelow [simp]: "index (clearCachedDataBelow e s) = index s"
  by (simp add: clearCachedDataBelow_eq)

lemma applyRequestCb_unwatch:
  assumes "indexInvariant (index s)"
  shows "applyRequestCb (UnwatchRootCb entry callback) err s =
     (let s' = (clearCachedDataBelow entry s)
                 \<lparr>watchedRoots := AList.delete (fullPath entry) (watchedRoots s),
                  index := filter (\<lambda>(path, child). \<not> prefix (fullPath entry) (fullPath child)) (index s)\<rparr>
      in if truthy err
         then invokeCallback callback err (emit (ConsoleWarn ''Failed to unwatch root: '') s')
         else invokeCallback callback None s')"
proof -
  let ?s2 = "(clearCachedDataBelow entry s)
     \<lparr>watchedRoots := AList.delete (fullPath entry) (watchedRoots (clearCachedDataBelow entry s))\<rparr>"
  have "indexInvariant (index ?s2)" using assms by simp
  from removeEntriesBelow_eq [OF this, of entry] show ?thesis
    by (simp add: Let_def clearCachedDataBelow_eq)
qed

lemma unwatch_done:
  assumes inv: "indexInvariant (index s)"
    and q: "watchRequests s = RequestOf False entry root (UnwatchRootCb entry callback) # rest"
  shows "map_of (watchedRoots (snd (requestDone err threw s))) (fullPath entry) = None"
    and "index (snd (requestDone err threw s))
           = filter (\<lambda>(path, child). \<not> prefix (fullPath entry) (fullPath child)) (index s)"
    and "trace (snd (requestDone err threw s))
           = trace s @ [ContinuationApplied (RequestOf False entry root (UnwatchRootCb entry callback)) err]
             @ (if truthy err then [ConsoleWarn ''Failed to unwatch root: ''] else [])
             @ (case callback of None \<Rightarrow> [] | Some c \<Rightarrow> [Callback c (if truthy err then err else None)])
             @ map RequestStarted (take 1 rest)"
    and "watchedRoots (snd (requestDone err threw s)) = AList.delete (fullPath entry) (watchedRoots s)"
proof -
  let ?s0 = "emit (ContinuationApplied (RequestOf False entry root (UnwatchRootCb entry callback)) err) s"
  have i0: "indexInvariant (index ?s0)" using inv by (simp add: emit_def)
  have r: "snd (requestDone err threw s)
      = dequeueWatchRequest ((applyRequestCb (UnwatchRootCb entry callback) err ?s0)
           \<lparr>watchRequests := tl (watchRequests (applyRequestCb (UnwatchRootCb entry callback) err ?s0))\<rparr>)"
    using q by (simp add: requestDone_def requestContinuation_def Let_def)
  show "map_of (watchedRoots (snd (requestDone err threw s))) (fullPath entry) = None"
    unfolding r applyRequestCb_unwatch [OF i0]
    by (cases callback)
       (simp_all add: Let_def dequeueWatchRequest_def emit_def invokeCallback_def delete_conv')
  show "index (snd (requestDone err threw s))
           = filter (\<lambda>(path, child). \<not> prefix (fullPath entry) (fullPath child)) (index s)"
    unfolding r applyRequestCb_unwatch [OF i0]
    by (cases callback)
       (simp_all add: Let_def dequeueWatchRequest_def emit_def invokeCallback_def)
  show "trace (snd (requestDone err threw s))
           = trace s @ [ContinuationApplied (RequestOf False entry root (UnwatchRootCb entry callback)) err]
             @ (if truthy err then [ConsoleWarn ''Failed to unwatch root: ''] else [])
             @ (case callback of None \<Rightarrow> [] | Some c \<Rightarrow> [Callback c (if truthy err then err else None)])
             @ map RequestStarted (take 1 rest)"
    unfolding r applyRequestCb_unwatch [OF i0] using q
    by (cases callback; cases rest)
       (simp_all add: Let_def dequeueWatchRequest_def emit_def invokeCallback_def clearCachedDataBelow_eq)
  show "watchedRoots (snd (requestDone err threw s)) = AList.delete (fullPath entry) (watchedRoots s)"
    unfolding r applyRequestCb_unwatch [OF i0]
    by (cases callback)
       (simp_all add: Let_def dequeueWatchRequest_def emit_def invokeCallback_def clearCachedDataBelow_eq)
qed

lemma filter_not_list_ex: "\<not> list_ex P (filter (\<lambda>x. \<not> P x) xs)"
  by (simp add: list_ex_iff)

lemma watchRequests_clearCachedDataBelow [simp]:
  "watchRequests (clearCachedDataBelow e s) = watchRequests s"
  by (simp add: clearCachedDataBelow_eq)

lemma watchRequests_removeEntriesBelow [simp]:
  "watchRequests (removeEntriesBelow e s) = watchRequests s"
  unfolding removeEntriesBelow_def visitAll_def removeEntriesBelow_fold by simp

lemma watchRequests_invokeCallback [simp]:
  "watchRequests (invokeCallback c err s) = watchRequests s"
  by (cases c) (simp_all add: invokeCallback_def emit_def)

lemma watchRequests_countdown [simp]: "watchRequests (countdown k s) = watchRequests s"
  by (simp add: countdown_def directoryChanged_def setStat_def emit_def Let_def
      split: option.splits directoryChange.splits)

lemma watchRequests_applyRequestCb [simp]:
  "watchRequests (applyRequestCb cb err s) = watchRequests s"
  by (cases cb) (simp_all add: Let_def emit_def)

lemma unwatch_idle:
  assumes inv: "indexInvariant (index s0)"
    and reg: "map_of (watchedRoots s0) (fullPath entry) = Some r"
    and idle: "watchRequests s0 = []"
  shows "map_of (watchedRoots (snd (requestDone err threw (unwatch entry callback s0)))) (fullPath entry) = None
       \<and> index (snd (requestDone err threw (unwatch entry callback s0)))
           = filter (\<lambda>(path, child). \<not> prefix (fullPath entry) (fullPath child)) (index s0)"
proof -
  let ?cb = "UnwatchRootCb entry callback"
  let ?s1 = "s0\<lparr>watchedRoots := AList.update (fullPath entry) (r\<lparr>active := False\<rparr>) (watchedRoots s0)\<rparr>"
  have u: "unwatch entry callback s0 = watchOrUnwatchEntry entry r ?cb False ?s1"
    using reg by (simp add: unwatch_def)
  have i1: "indexInvariant (index ?s1)" using inv by simp
  show ?thesis
  proof (cases "recursiveWatch s0 \<and> eid entry \<noteq> eid (rootEntry r)")
    case True
    then have a: "unwatch entry callback s0 = applyRequestCb ?cb None ?s1"
      unfolding u by (simp add: watchOrUnwatchEntry_def)
    have "watchRequests (applyRequestCb ?cb None ?s1) = []"
      using idle by (simp del: applyRequestCb.simps)
    then have d: "snd (requestDone err threw (unwatch entry callback s0)) = applyRequestCb ?cb None ?s1"
      unfolding a by (simp add: requestDone_def)
    show ?thesis
      unfolding d applyRequestCb_unwatch [OF i1]
      by (cases callback) (simp_all add: Let_def invokeCallback_def truthy_def emit_def delete_conv')
  next
    case False
    let ?rq = "RequestOf False entry (rootEntry r) ?cb"
    let ?s2 = "emit (RequestStarted ?rq) (?s1\<lparr>watchRequests := [?rq]\<rparr>)"
    from False have a: "unwatch entry callback s0 = ?s2"
      unfolding u using idle
      by (auto simp add: watchOrUnwatchEntry_def enqueueWatchRequest_def dequeueWatchRequest_def Let_def)
    have i2: "indexInvariant (index ?s2)" using inv by (simp add: emit_def)
    have q2: "watchRequests ?s2 = ?rq # []" by (simp add: emit_def)
    from unwatch_done(1,2) [OF i2 q2, of err threw] show ?thesis
      unfolding a by (simp add: emit_def)
  qed
qed

text \<open>
  When the continuation of the request of \<open>unwatch(entry, callback)\<close> is applied, to an
  error \<open>err\<close> or to \<open>null\<close>, the root is gone from the registry, the index has lost
  exactly the entries whose \<open>fullPath\<close> begins with \<open>entry.fullPath\<close>, so none of them
  remains, and then the user callback is applied to what the continuation was applied
  to. The same holds for the registry and the index after \<open>unwatch\<close> on a watched root
  with no request pending, whichever way \<open>_watchOrUnwatchEntry\<close> takes. The index is
  assumed to store every entry under its own \<open>fullPath\<close>.
\<close>

lemma unwatch_prunes:
  "(indexInvariant (index s) \<and>
    watchRequests s = RequestOf False entry root (UnwatchRootCb entry callback) # rest \<longrightarrow>
      map_of (watchedRoots (snd (requestDone err threw s))) (fullPath entry) = None \<and>
      index (snd (requestDone err threw s))
        = filter (\<lambda>(path, child). \<not> prefix (fullPath entry) (fullPath child)) (index s) \<and>
      \<not> list_ex (\<lambda>(path, child). prefix (fullPath entry) (fullPath child))
            (index (snd (requestDone err threw s))) \<and>
      trace (snd (requestDone err threw s))
        = trace s @ [ContinuationApplied (RequestOf False entry root (UnwatchRootCb entry callback)) err]
          @ (if truthy err then [ConsoleWarn ''Failed to unwatch root: ''] else [])
          @ (case callback of None \<Rightarrow> [] | Some c \<Rightarrow> [Callback c (if truthy err then err else None)])
          @ map RequestStarted (take 1 rest)) \<and>
   (indexInvariant (index s0) \<and> map_of (watchedRoots s0) (fullPath entry) = Some r \<and>
    watchRequests s0 = [] \<longrightarrow>
      map_of (watchedRoots (snd (requestDone err threw (unwatch entry callback s0)))) (fullPath entry) = None \<and>
      index (snd (requestDone err threw (unwatch entry callback s0)))
        = filter (\<lambda>(path, child). \<not> prefix (fullPath entry) (fullPath child)) (index s0) \<and>
      \<not> list_ex (\<lambda>(path, child). prefix (fullPath entry) (fullPath child))
            (index (snd (requestDone err threw (unwatch entry callback s0)))))"
proof (intro conjI impI)
  assume a: "indexInvariant (index s) \<and>
    watchRequests s = RequestOf False entry root (UnwatchRootCb entry callback) # rest"
  then have inv: "indexInvariant (index s)"
    and q: "watchRequests s = RequestOf False entry root (UnwatchRootCb entry callback) # rest" by simp_all
  show "map_of (watchedRoots (snd (requestDone err threw s))) (fullPath entry) = None"
    using inv q by (rule unwatch_done(1))
  show i: "index (snd (requestDone err threw s))
        = filter (\<lambda>(path, child). \<not> prefix (fullPath entry) (fullPath child)) (index s)"
    using inv q by (rule unwatch_done(2))
  show "\<not> list_ex (\<lambda>(path, child). prefix (fullPath entry) (fullPath child))
            (index (snd (requestDone err threw s)))"
    unfolding i by (simp add: list_ex_iff)
  show "trace (snd (requestDone err threw s))
        = trace s @ [ContinuationApplied (RequestOf False entry root (UnwatchRootCb entry callback)) err]
          @ (if truthy err then [ConsoleWarn ''Failed to unwatch root: ''] else [])
          @ (case callback of None \<Rightarrow> [] | Some c \<Rightarrow> [Callback c (if truthy err then err else None)])
          @ map RequestStarted (take 1 rest)"
    using inv q by (rule unwatch_done(3))
next
  assume a: "indexInvariant (index s0) \<and> map_of (watchedRoots s0) (fullPath entry) = Some r \<and>
    watchRequests s0 = []"
  then have *: "map_of (watchedRoots (snd (requestDone err threw (unwatch entry callback s0)))) (fullPath entry) = None
       \<and> index (snd (requestDone err threw (unwatch entry callback s0)))
           = filter (\<lambda>(path, child). \<not> prefix (fullPath entry) (fullPath child)) (index s0)"
    by (intro unwatch_idle) simp_all
  from * show "map_of (watchedRoots (snd (requestDone err threw (unwatch entry callback s0)))) (fullPath entry) = None"
    by simp
  from * show i: "index (snd (requestDone err threw (unwatch entry callback s0)))
           = filter (\<lambda>(path, child). \<not> prefix (fullPath entry) (fullPath child)) (index s0)"
    by simp
  show "\<not> list_ex (\<lambda>(path, child). prefix (fullPath entry) (fullPath child))
            (index (snd (requestDone err threw (unwatch entry callback s0))))"
    unfolding i by (simp add: list_ex_iff)
qed

lemma projIndexed_eq:
  "projIndexed = projWatched
     \<lparr>index := [(''/proj/'', projDir),
                 (''/proj/sub/'', \<lparr>eid = 2, fullPath = ''/proj/sub/'', constructedBy = Directory\<rparr>),
                 (''/other.txt'', \<lparr>eid = 3, fullPath = ''/other.txt'', constructedBy = File\<rparr>)],
      nextId := 4\<rparr>"
  unfolding projIndexed_def
  by (simp add: getDirectoryForPath_def getFileForPath_def getEntryForPath_def normalizePath_def
      isAbsolutePath_def charAt_def startsWithDuplicatedSlash_def appendTrailingSlash_def Let_def
      getEntry_def addEntry_def projWatched_eq)

text \<open>An instance, with recursive watching: \<open>/proj/\<close> is watched, \<open>/proj/\<close>, \<open>/proj/sub/\<close>
  and \<open>/other.txt\<close> are in the index, and the backend answers the unwatch request with the
  error \<open>"boom"\<close>.\<close>

lemma unwatch_prunes_instance:
  "indexInvariant (index projIndexed) \<and>
   map_of (watchedRoots projIndexed) (fullPath projDir)
     = Some \<lparr>rid = 1, rootEntry = projDir, filter' = (), active = True\<rparr> \<and>
   watchRequests projIndexed = [] \<and>
   watchRequests (unwatch projDir (Some 5) projIndexed)
     = [Request False projDir (UnwatchRootCb projDir (Some 5))] \<and>
   map_of (watchedRoots (snd (requestDone (Some ''boom'') True (unwatch projDir (Some 5) projIndexed))))
     (fullPath projDir) = None \<and>
   index (snd (requestDone (Some ''boom'') True (unwatch projDir (Some 5) projIndexed)))
     = [(''/other.txt'', \<lparr>eid = 3, fullPath = ''/other.txt'', constructedBy = File\<rparr>)] \<and>
   trace (snd (requestDone (Some ''boom'') True (unwatch projDir (Some 5) projIndexed)))
     = trace (unwatch projDir (Some 5) projIndexed)
       @ [ContinuationApplied (Request False projDir (UnwatchRootCb projDir (Some 5))) (Some ''boom''),
          ConsoleWarn ''Failed to unwatch root: '', Callback 5 (Some ''boom'')]"
proof -
  let ?u = "unwatch projDir (Some 5) projIndexed"
  have h1: "indexInvariant (index projIndexed)"
    by (simp add: projIndexed_eq indexInvariant_def) (simp add: projDir_def)
  have h2: "map_of (watchedRoots projIndexed) (fullPath projDir)
      = Some \<lparr>rid = 1, rootEntry = projDir, filter' = (), active = True\<rparr>"
    by (simp add: projIndexed_eq projWatched_eq) (simp add: projDir_def)
  have h3: "watchRequests projIndexed = []"
    by (simp add: projIndexed_eq projWatched_eq)
  have u: "?u = emit (RequestStarted (Request False projDir (UnwatchRootCb projDir (Some 5))))
      (projIndexed\<lparr>watchedRoots := [(''/proj/'', \<lparr>rid = 1, rootEntry = projDir, filter' = (), active = False\<rparr>)],
         watchRequests := [Request False projDir (UnwatchRootCb projDir (Some 5))]\<rparr>)"
    by (simp add: unwatch_def h2 watchOrUnwatchEntry_def enqueueWatchRequest_def
        dequeueWatchRequest_def Let_def)
       (simp add: projIndexed_eq projWatched_eq projDir_def emit_def)
  have h4: "indexInvariant (index ?u)" "index ?u = index projIndexed"
    "watchRequests ?u = Request False projDir (UnwatchRootCb projDir (Some 5)) # []"
    using h1 by (simp_all add: u emit_def)
  have f: "filter (\<lambda>(path, child). \<not> prefix (fullPath projDir) (fullPath child)) (index projIndexed)
      = [(''/other.txt'', \<lparr>eid = 3, fullPath = ''/other.txt'', constructedBy = File\<rparr>)]"
    by (simp add: projIndexed_eq) (simp add: projDir_def)
  have t: "truthy (Some ''boom'')" by (simp add: truthy_def)
  note inst = unwatch_prunes [where s = ?u and entry = projDir and root = projDir
      and callback = "Some 5" and rest = "[]"
      and err = "Some ''boom''" and threw = True and ?s0.0 = projIndexed
      and r = "\<lparr>rid = 1, rootEntry = projDir, filter' = (), active = True\<rparr>"]
  have c1: "map_of (watchedRoots (snd (requestDone (Some ''boom'') True ?u))) (fullPath projDir) = None"
    using inst h1 h2 h3 by simp
  have c2: "index (snd (requestDone (Some ''boom'') True ?u))
     = [(''/other.txt'', \<lparr>eid = 3, fullPath = ''/other.txt'', constructedBy = File\<rparr>)]"
    using inst h1 h2 h3 f by simp
  have c3: "trace (snd (requestDone (Some ''boom'') True ?u))
     = trace ?u
       @ [ContinuationApplied (Request False projDir (UnwatchRootCb projDir (Some 5))) (Some ''boom''),
          ConsoleWarn ''Failed to unwatch root: '', Callback 5 (Some ''boom'')]"
    using inst h4 t by simp
  from h1 h2 h3 h4(3) c1 c2 c3 show ?thesis by (intro conjI) simp_all
qed

lemma projWatchedFlat_eq:
  "projWatchedFlat =
     \<lparr>recursiveWatch = False, normalizeUNCPaths = False, index = [(''/proj/'', projDir)],
      entryData = (\<lambda>_. noCachedData),
      watchedRoots = [(''/proj/'', \<lparr>rid = 1, rootEntry = projDir, filter' = (), active = True\<rparr>)],
      watchRequests = [], requestCount = None, directoryChanges = [],
      externalChanges = [], activeChangeCount = 0, nextId = 2,
      trace = [RequestStarted (Request True projDir (WatchRootCb projDir 1 (Some 1))),
               ImplPathCall True ''/proj/'',
               ContinuationApplied (Request True projDir (WatchRootCb projDir 1 (Some 1))) None,
               Callback 1 None]\<rparr>"
proof -
  have g: "getDirectoryForPath ''/proj'' (newFileSystem False False :: (unit, nat) fileSystem)
     = Inr (projDir, (newFileSystem False False)\<lparr>index := [(''/proj/'', projDir)], nextId := 1\<rparr>)"
    by (simp add: getDirectoryForPath_def getEntryForPath_def normalizePath_def isAbsolutePath_def
        charAt_def startsWithDuplicatedSlash_def appendTrailingSlash_def Let_def newFileSystem_def
        getEntry_def addEntry_def projDir_def)
  show ?thesis
    unfolding projWatchedFlat_def
    by (simp add: g watch_cases findWatchedRootForPath_def
        watchOrUnwatchEntry_def enqueueWatchRequest_def dequeueWatchRequest_def emit_def Let_def
        visitDone_def pathDone_def entriesToWatchOrUnwatch_def
        requestDone_def requestContinuation_def truthy_def invokeCallback_def setActive_def)
      (simp add: newFileSystem_def projDir_def)
qed

text \<open>
  Claim C7, the code at the failing input. On a backend without recursive watching,
  with \<open>/proj/\<close> watched, \<open>unwatch\<close> is called on \<open>/proj/\<close>, the visit finds \<open>/proj/\<close>, and the
  backend answers \<open>impl.unwatchPath\<close> with the error \<open>"Unknown"\<close>. The root and the index
  entries are removed, but the continuation and the user callback are applied to
  \<open>null\<close>: \<open>watchOrUnwatchCallback\<close> of the request function drops the error.
\<close>

theorem unwatch_error_dropped:
  "\<not> recursiveWatch projWatchedFlat \<and>
   map fst (watchedRoots projWatchedFlat) = [''/proj/''] \<and>
   map fst (index projWatchedFlat) = [''/proj/''] \<and>
   trace (fold perform [Unwatch projDir (Some 5), VisitDone None [(projDir, True)] False,
                        PathDone (Some ''Unknown'') False] projWatchedFlat)
     = trace projWatchedFlat @
       [RequestStarted (Request False projDir (UnwatchRootCb projDir (Some 5))),
        ImplPathCall False ''/proj/'',
        ContinuationApplied (Request False projDir (UnwatchRootCb projDir (Some 5))) None,
        Callback 5 None] \<and>
   watchedRoots (fold perform [Unwatch projDir (Some 5), VisitDone None [(projDir, True)] False,
                               PathDone (Some ''Unknown'') False] projWatchedFlat) = [] \<and>
   index (fold perform [Unwatch projDir (Some 5), VisitDone None [(projDir, True)] False,
                        PathDone (Some ''Unknown'') False] projWatchedFlat) = []"
proof -
  let ?rq = "Request False projDir (UnwatchRootCb projDir (Some 5)) :: nat request"
  let ?s1 = "projWatchedFlat
      \<lparr>watchedRoots := [(''/proj/'', \<lparr>rid = 1, rootEntry = projDir, filter' = (), active = False\<rparr>)],
       watchRequests := [?rq],
       trace := trace projWatchedFlat @ [RequestStarted ?rq]\<rparr>"
  let ?s2 = "?s1\<lparr>requestCount := Some 1, trace := trace ?s1 @ [ImplPathCall False ''/proj/'']\<rparr>"
  have u: "perform (Unwatch projDir (Some 5)) projWatchedFlat = ?s1"
    by (simp add: unwatch_def watchOrUnwatchEntry_def enqueueWatchRequest_def
        dequeueWatchRequest_def Let_def projWatchedFlat_eq emit_def)
       (simp add: projDir_def)
  have v: "perform (VisitDone None [(projDir, True)] False) ?s1 = ?s2"
    by (simp add: visitDone_def entriesToWatchOrUnwatch_def truthy_def Let_def emit_def
        projWatchedFlat_eq)
       (simp add: projDir_def)
  let ?s3 = "?s2\<lparr>requestCount := None\<rparr>"
  have p: "perform (PathDone (Some ''Unknown'') False) ?s2 = snd (requestDone None False ?s3)"
    by (simp add: pathDone_def)
  have inv: "indexInvariant (index ?s3)"
    by (simp add: projWatchedFlat_eq indexInvariant_def) (simp add: projDir_def)
  have q: "watchRequests ?s3 = RequestOf False projDir projDir (UnwatchRootCb projDir (Some 5)) # []"
    by simp
  have f: "fold perform [Unwatch projDir (Some 5), VisitDone None [(projDir, True)] False,
                        PathDone (Some ''Unknown'') False] projWatchedFlat
      = snd (requestDone None False ?s3)"
    by (simp only: fold_simps id_apply comp_apply u v p)
  have 1: "\<not> recursiveWatch projWatchedFlat"
    "map fst (watchedRoots projWatchedFlat) = [''/proj/'']"
    "map fst (index projWatchedFlat) = [''/proj/'']"
    by (simp_all add: projWatchedFlat_eq)
  have 2: "trace (snd (requestDone None False ?s3))
     = trace projWatchedFlat @
       [RequestStarted ?rq, ImplPathCall False ''/proj/'', ContinuationApplied ?rq None,
        Callback 5 None]"
    unfolding unwatch_done(3) [OF inv q] by (simp add: truthy_def)
  have 3: "watchedRoots (snd (requestDone None False ?s3)) = []"
    unfolding unwatch_done(4) [OF inv q] by (simp add: projDir_def)
  have 4: "index (snd (requestDone None False ?s3)) = []"
    unfolding unwatch_done(2) [OF inv q] by (simp add: projWatchedFlat_eq projDir_def)
  from 1 2 3 4 show ?thesis unfolding f by (intro conjI)
qed


subsection \<open>The queue of watch requests\<close>

lemma startedRequests_append [simp]:
  "startedRequests (xs @ ys) = startedRequests xs @ startedRequests ys"
  by (induction xs rule: startedRequests.induct) simp_all

lemma completedRequests_append [simp]:
  "completedRequests (xs @ ys) = completedRequests xs @ completedRequests ys"
  by (induction xs rule: completedRequests.induct) simp_all

lemma queueView_emit:
  "startedRequests [ev] = [] \<Longrightarrow> completedRequests [ev] = [] \<Longrightarrow> queueView (emit ev s) = queueView s"
  by (simp add: queueView_def emit_def)

lemma queueView_invokeCallback [simp]: "queueView (invokeCallback c err s) = queueView s"
  by (cases c) (simp_all add: invokeCallback_def queueView_emit)

lemma queueView_visitAll:
  "(\<And>child s. queueView (visitor child s) = queueView s) \<Longrightarrow> queueView (visitAll visitor idx s) = queueView s"
  unfolding visitAll_def by (induction idx arbitrary: s) auto

lemma queueView_clearCachedData [simp]: "queueView (clearCachedData e s) = queueView s"
  by (simp add: queueView_def clearCachedData_def)

lemma queueView_setStat [simp]: "queueView (setStat e st s) = queueView s"
  by (simp add: queueView_def setStat_def)

lemma queueView_clearCachedDataBelow [simp]: "queueView (clearCachedDataBelow e s) = queueView s"
  unfolding clearCachedDataBelow_def by (rule queueView_visitAll) simp

lemma queueView_removeEntriesBelow [simp]: "queueView (removeEntriesBelow e s) = queueView s"
  unfolding removeEntriesBelow_def by (rule queueView_visitAll) (simp add: queueView_def)

lemma queueView_watchedRoots_update [simp]: "queueView (s\<lparr>watchedRoots := x\<rparr>) = queueView s"
  by (simp add: queueView_def)

lemma queueView_setContents [simp]: "queueView (setContents e cs s) = queueView s"
  by (simp add: queueView_def setContents_def)

lemma queueView_frame [simp]:
  "queueView (s\<lparr>directoryChanges := d\<rparr>) = queueView s"
  "queueView (s\<lparr>requestCount := n\<rparr>) = queueView s"
  "queueView (s\<lparr>nextId := i\<rparr>) = queueView s"
  by (simp_all add: queueView_def)

lemma queueView_directoryChanged [simp]:
  "queueView (directoryChanged e st added removed s) = queueView s"
  by (simp add: directoryChanged_def queueView_emit)

lemma queueView_countdown [simp]: "queueView (countdown k s) = queueView s"
  by (simp add: countdown_def Let_def split: option.splits directoryChange.splits)

lemma queueView_applyRequestCb [simp]: "queueView (applyRequestCb cb err s) = queueView s"
  by (cases cb) (simp_all add: Let_def queueView_emit)

lemma queueView_handleDirectoryChange [simp]:
  "queueView (handleDirectoryChange e st s) = queueView s"
  by (simp add: handleDirectoryChange_def Let_def queueView_emit)

lemma queueView_handleExternalChange:
  "handleExternalChange path st s = Inr s' \<Longrightarrow> queueView s' = queueView s"
  by (auto simp add: handleExternalChange_def queueView_emit queueView_visitAll
      split: if_splits sum.splits option.splits)

lemma queueView_forEachExternalChange:
  "queueView (snd (forEachExternalChange infos s)) = queueView s"
proof (induction infos arbitrary: s)
  case Nil
  show ?case by simp
next
  case (Cons info infos)
  show ?case
  proof (cases "handleExternalChange (fst info) (snd info) s")
    case (Inl e)
    then show ?thesis by simp
  next
    case (Inr s')
    with Cons [of s'] queueView_handleExternalChange [OF Inr] show ?thesis by simp
  qed
qed

lemma queueView_triggerExternalChangesNow [simp]:
  "queueView (snd (triggerExternalChangesNow s)) = queueView s"
proof -
  obtain e s' where f: "forEachExternalChange (externalChanges s) s = (e, s')"
    by (cases "forEachExternalChange (externalChanges s) s")
  with queueView_forEachExternalChange [of "externalChanges s" s] have "queueView s' = queueView s"
    by simp
  with f show ?thesis
    by (cases e) (simp_all add: triggerExternalChangesNow_def queueView_def)
qed

lemma queueView_enqueueExternalChange [simp]:
  "queueView (snd (enqueueExternalChange path st s)) = queueView s"
proof -
  have "queueView (s\<lparr>externalChanges := externalChanges s @ [(path, st)]\<rparr>) = queueView s"
    by (simp add: queueView_def)
  with queueView_triggerExternalChangesNow [of "s\<lparr>externalChanges := externalChanges s @ [(path, st)]\<rparr>"]
  show ?thesis by (simp add: enqueueExternalChange_def Let_def)
qed

lemma queueView_beginChange [simp]: "queueView (beginChange s) = queueView s"
  by (simp add: queueView_def beginChange_def)

lemma queueView_endChange [simp]: "queueView (snd (endChange s)) = queueView s"
proof -
  let ?s1 = "s\<lparr>activeChangeCount := activeChangeCount s - 1\<rparr>"
  let ?s2 = "if activeChangeCount ?s1 < 0
             then emit (ConsoleError ''FileSystem _activeChangeCount has fallen below zero!'') ?s1 else ?s1"
  have 1: "queueView ?s1 = queueView s" by (simp add: queueView_def)
  then have 2: "queueView ?s2 = queueView s" by (simp add: queueView_emit)
  have "snd (endChange s) = (if activeChangeCount ?s2 = 0 then snd (triggerExternalChangesNow ?s2) else ?s2)"
    by (simp add: endChange_def Let_def)
  with 2 queueView_triggerExternalChangesNow [of ?s2] show ?thesis by presburger
qed

lemma queueView_close [simp]: "queueView (close s) = queueView s"
  by (simp add: close_def queueView_def emit_def)

lemma queueView_getEntryForPath:
  "getEntryForPath c p s = Inr (e, s') \<Longrightarrow> queueView s' = queueView s"
  by (auto simp add: getEntryForPath_def queueView_def Let_def split: sum.splits option.splits)

lemma queueInvariant_cong: "queueView s' = queueView s \<Longrightarrow> queueInvariant s' = queueInvariant s"
  by (simp add: queueView_def queueInvariant_def)

lemma submittedRequests_cong: "queueView s' = queueView s \<Longrightarrow> submittedRequests s' = submittedRequests s"
  by (simp add: queueView_def submittedRequests_def)

lemma queueView_enqueueWatchRequest:
  "queueView (enqueueWatchRequest r s) =
     (startedRequests (trace s) @ (if watchRequests s = [] then [r] else []),
      completedRequests (trace s), watchRequests s @ [r])"
  by (cases "watchRequests s")
     (simp_all add: queueView_def enqueueWatchRequest_def dequeueWatchRequest_def emit_def Let_def)

lemma queueInvariant_enqueueWatchRequest:
  "queueInvariant s \<Longrightarrow> queueInvariant (enqueueWatchRequest r s)"
  using queueView_enqueueWatchRequest [of r s]
  by (cases "watchRequests s") (simp_all add: queueView_def queueInvariant_def)

lemma submittedRequests_enqueueWatchRequest:
  "submittedRequests (enqueueWatchRequest r s) = submittedRequests s @ [r]"
  using queueView_enqueueWatchRequest [of r s]
  by (simp add: queueView_def submittedRequests_def)

lemma queueView_requestDone:
  assumes "watchRequests s = request # rest"
  shows "queueView (snd (requestDone err threw s)) =
     (startedRequests (trace s) @ take 1 rest, completedRequests (trace s) @ [request], rest)"
proof -
  let ?s0 = "emit (ContinuationApplied request err) s"
  let ?s1 = "applyRequestCb (requestCb request) err ?s0"
  have v0: "queueView ?s0 = (startedRequests (trace s), completedRequests (trace s) @ [request], request # rest)"
    using assms by (simp add: queueView_def emit_def)
  have v1: "queueView ?s1 = queueView ?s0" by (rule queueView_applyRequestCb)
  have "snd (requestDone err threw s) = dequeueWatchRequest (?s1\<lparr>watchRequests := tl (watchRequests ?s1)\<rparr>)"
    using assms by (simp add: requestDone_def requestContinuation_def Let_def)
  with v1 v0 show ?thesis
    by (cases rest) (simp_all add: queueView_def dequeueWatchRequest_def emit_def)
qed

lemma requestDone_idle: "watchRequests s = [] \<Longrightarrow> requestDone err threw s = (False, s)"
  by (simp add: requestDone_def)

lemma queueInvariant_requestDone:
  "queueInvariant s \<Longrightarrow> queueInvariant (snd (requestDone err threw s))"
proof (cases "watchRequests s")
  case Nil
  then show "queueInvariant s \<Longrightarrow> ?thesis" by (simp add: requestDone_idle)
next
  case (Cons request rest)
  from queueView_requestDone [OF Cons, of err threw]
  show "queueInvariant s \<Longrightarrow> ?thesis"
    using Cons by (simp add: queueView_def queueInvariant_def)
qed

lemma submittedRequests_requestDone:
  "submittedRequests (snd (requestDone err threw s)) = submittedRequests s"
proof (cases "watchRequests s")
  case Nil
  then show ?thesis by (simp add: requestDone_idle)
next
  case (Cons request rest)
  from queueView_requestDone [OF Cons, of err threw]
  show ?thesis using Cons by (simp add: queueView_def submittedRequests_def)
qed

lemma watchOrUnwatchEntry_cases:
  "queueView (watchOrUnwatchEntry e r cb b s) = queueView s
   \<or> watchOrUnwatchEntry e r cb b s = enqueueWatchRequest (RequestOf b e (rootEntry r) cb) s"
proof (cases "recursiveWatch s \<and> eid e \<noteq> eid (rootEntry r)")
  case True
  then have "watchOrUnwatchEntry e r cb b s = applyRequestCb cb None s"
    by (simp add: watchOrUnwatchEntry_def del: applyRequestCb.simps)
  then show ?thesis by (simp only: queueView_applyRequestCb simp_thms)
next
  case False
  then have "watchOrUnwatchEntry e r cb b s = enqueueWatchRequest (RequestOf b e (rootEntry r) cb) s"
    by (auto simp add: watchOrUnwatchEntry_def simp del: applyRequestCb.simps)
  then show ?thesis by (rule disjI2)
qed

lemma queueInvariant_watchOrUnwatchEntry:
  assumes "queueInvariant s"
  shows "queueInvariant (watchOrUnwatchEntry e r cb b s)"
  using watchOrUnwatchEntry_cases [of e r cb b s]
proof
  assume "queueView (watchOrUnwatchEntry e r cb b s) = queueView s"
  from queueInvariant_cong [OF this] assms show ?thesis by simp
next
  assume "watchOrUnwatchEntry e r cb b s = enqueueWatchRequest (RequestOf b e (rootEntry r) cb) s"
  with queueInvariant_enqueueWatchRequest [OF assms] show ?thesis by simp
qed

lemma submittedRequests_watchOrUnwatchEntry:
  "prefix (submittedRequests s) (submittedRequests (watchOrUnwatchEntry e r cb b s))"
  using watchOrUnwatchEntry_cases [of e r cb b s]
proof
  assume "queueView (watchOrUnwatchEntry e r cb b s) = queueView s"
  from submittedRequests_cong [OF this] show ?thesis by simp
next
  assume "watchOrUnwatchEntry e r cb b s = enqueueWatchRequest (RequestOf b e (rootEntry r) cb) s"
  then show ?thesis by (simp add: submittedRequests_enqueueWatchRequest)
qed

lemma queueInvariant_frame [simp]:
  "queueInvariant (s\<lparr>watchedRoots := x\<rparr>) = queueInvariant s"
  "queueInvariant (s\<lparr>nextId := n\<rparr>) = queueInvariant s"
  by (simp_all add: queueInvariant_def)

lemma queueInvariant_invokeCallback [simp]:
  "queueInvariant (invokeCallback c err s) = queueInvariant s"
  by (rule queueInvariant_cong [OF queueView_invokeCallback])

lemma submittedRequests_frame [simp]:
  "submittedRequests (s\<lparr>watchedRoots := x\<rparr>) = submittedRequests s"
  "submittedRequests (s\<lparr>nextId := n\<rparr>) = submittedRequests s"
  by (simp_all add: submittedRequests_def)

lemma submittedRequests_invokeCallback [simp]:
  "submittedRequests (invokeCallback c err s) = submittedRequests s"
  by (rule submittedRequests_cong [OF queueView_invokeCallback])

lemma queueInvariant_watch: "queueInvariant s \<Longrightarrow> queueInvariant (watch e f c s)"
  unfolding watch_cases by (simp add: queueInvariant_watchOrUnwatchEntry)

lemma submittedRequests_watch: "prefix (submittedRequests s) (submittedRequests (watch e f c s))"
proof -
  let ?s' = "s\<lparr>watchedRoots := AList.update (fullPath e)
                    \<lparr>rid = nextId s, rootEntry = e, filter' = f, active = False\<rparr> (watchedRoots s),
                nextId := Suc (nextId s)\<rparr>"
  have "submittedRequests ?s' = submittedRequests s" by simp
  with submittedRequests_watchOrUnwatchEntry [of ?s' e
      "\<lparr>rid = nextId s, rootEntry = e, filter' = f, active = False\<rparr>" "WatchRootCb e (nextId s) c" True]
  show ?thesis unfolding watch_cases by simp
qed

lemma queueInvariant_unwatch: "queueInvariant s \<Longrightarrow> queueInvariant (unwatch e c s)"
  by (cases "map_of (watchedRoots s) (fullPath e)")
     (simp_all add: unwatch_def queueInvariant_watchOrUnwatchEntry)

lemma submittedRequests_unwatch: "prefix (submittedRequests s) (submittedRequests (unwatch e c s))"
proof (cases "map_of (watchedRoots s) (fullPath e)")
  case None
  then show ?thesis by (simp add: unwatch_def)
next
  case (Some r)
  let ?s' = "s\<lparr>watchedRoots := AList.update (fullPath e) (r\<lparr>active := False\<rparr>) (watchedRoots s)\<rparr>"
  have "submittedRequests ?s' = submittedRequests s" by simp
  with submittedRequests_watchOrUnwatchEntry [of ?s' e r "UnwatchRootCb e c" False] Some
  show ?thesis by (simp add: unwatch_def)
qed

lemma queueInvariant_unwatchAllStep: "queueInvariant s \<Longrightarrow> queueInvariant (unwatchAllStep path s)"
  by (cases "map_of (watchedRoots s) path")
     (simp_all add: unwatchAllStep_def queueInvariant_watchOrUnwatchEntry)

lemma submittedRequests_unwatchAllStep:
  "prefix (submittedRequests s) (submittedRequests (unwatchAllStep path s))"
proof (cases "map_of (watchedRoots s) path")
  case None
  then show ?thesis by (simp add: unwatchAllStep_def)
next
  case (Some r)
  let ?s' = "s\<lparr>watchedRoots := AList.delete path (watchedRoots s)\<rparr>"
  have "submittedRequests ?s' = submittedRequests s" by simp
  with submittedRequests_watchOrUnwatchEntry [of ?s' "rootEntry r" r "UnwatchAllCb (rootEntry r)" False] Some
  show ?thesis by (simp add: unwatchAllStep_def)
qed

lemma queueInvariant_fold_unwatchAllStep:
  "queueInvariant s \<Longrightarrow> queueInvariant (fold unwatchAllStep paths s)"
  by (induction paths arbitrary: s) (simp_all add: queueInvariant_unwatchAllStep)

lemma submittedRequests_fold_unwatchAllStep:
  "prefix (submittedRequests s) (submittedRequests (fold unwatchAllStep paths s))"
proof (induction paths arbitrary: s)
  case Nil
  show ?case by simp
next
  case (Cons p paths)
  from submittedRequests_unwatchAllStep [of s p] Cons [of "unwatchAllStep p s"]
  show ?case by (auto intro: prefix_order.trans)
qed

lemma queueView_unwatchAll_tail:
  "queueView (emit (ChangeEvent None) (visitAll clearCachedData (index t) t)) = queueView t"
proof -
  have "queueView (visitAll clearCachedData (index t) t) = queueView t"
    by (rule queueView_visitAll) simp
  then show ?thesis by (simp add: queueView_emit)
qed

lemma queueInvariant_unwatchAll: "queueInvariant s \<Longrightarrow> queueInvariant (unwatchAll s)"
proof -
  assume i: "queueInvariant s"
  let ?s1 = "emit (ConsoleWarn ''File watchers went offline!'') s"
  have "queueView ?s1 = queueView s" by (simp add: queueView_emit)
  from queueInvariant_cong [OF this] i have "queueInvariant ?s1" by simp
  then have "queueInvariant (fold unwatchAllStep (map fst (watchedRoots ?s1)) ?s1)"
    by (rule queueInvariant_fold_unwatchAllStep)
  then show ?thesis
    unfolding unwatchAll_def Let_def
    by (simp only: queueInvariant_cong [OF queueView_unwatchAll_tail])
qed

lemma submittedRequests_unwatchAll: "prefix (submittedRequests s) (submittedRequests (unwatchAll s))"
proof -
  let ?s1 = "emit (ConsoleWarn ''File watchers went offline!'') s"
  have "queueView ?s1 = queueView s" by (simp add: queueView_emit)
  then have "submittedRequests ?s1 = submittedRequests s" by (rule submittedRequests_cong)
  with submittedRequests_fold_unwatchAllStep [of ?s1 "map fst (watchedRoots ?s1)"]
  have "prefix (submittedRequests s) (submittedRequests (fold unwatchAllStep (map fst (watchedRoots ?s1)) ?s1))"
    by simp
  then show ?thesis
    unfolding unwatchAll_def Let_def
    by (simp only: submittedRequests_cong [OF queueView_unwatchAll_tail])
qed

lemma queueView_fold_emit:
  "queueView (fold (\<lambda>entry. emit (ImplPathCall b (fullPath entry))) entries s) = queueView s"
  by (induction entries arbitrary: s) (simp_all add: queueView_emit)

lemma visitDone_cases:
  "queueView (snd (visitDone err visited threw s)) = queueView s
   \<or> (\<exists>err'. visitDone err visited threw s = requestDone err' threw s)"
proof (cases "watchRequests s")
  case Nil
  then show ?thesis by (simp add: visitDone_def)
next
  case (Cons request rest)
  show ?thesis
  proof (cases "truthy err \<or> entriesToWatchOrUnwatch (requestRoot request) visited = []")
    case True
    with Cons have "visitDone err visited threw s = requestDone err threw s
        \<or> visitDone err visited threw s = requestDone None threw s"
      by (auto simp add: visitDone_def Let_def)
    then show ?thesis by blast
  next
    case False
    with Cons have "visitDone err visited threw s =
        (False, fold (\<lambda>entry. emit (ImplPathCall (shouldWatch request) (fullPath entry)))
                  (entriesToWatchOrUnwatch (requestRoot request) visited)
                  (s\<lparr>requestCount :=
                       Some (int (length (entriesToWatchOrUnwatch (requestRoot request) visited)))\<rparr>))"
      by (simp add: visitDone_def Let_def)
    then show ?thesis by (simp add: queueView_fold_emit)
  qed
qed

lemma queueInvariant_visitDone:
  assumes "queueInvariant s"
  shows "queueInvariant (snd (visitDone err visited threw s))"
  using visitDone_cases [of err visited threw s]
proof
  assume "queueView (snd (visitDone err visited threw s)) = queueView s"
  from queueInvariant_cong [OF this] assms show ?thesis by simp
next
  assume "\<exists>err'. visitDone err visited threw s = requestDone err' threw s"
  with queueInvariant_requestDone [OF assms] show ?thesis by auto
qed

lemma submittedRequests_visitDone:
  "submittedRequests (snd (visitDone err visited threw s)) = submittedRequests s"
  using visitDone_cases [of err visited threw s]
proof
  assume "queueView (snd (visitDone err visited threw s)) = queueView s"
  then show ?thesis by (rule submittedRequests_cong)
next
  assume "\<exists>err'. visitDone err visited threw s = requestDone err' threw s"
  then show ?thesis by (auto simp add: submittedRequests_requestDone)
qed

lemma pathDone_cases:
  "queueView (snd (pathDone err threw s)) = queueView s
   \<or> pathDone err threw s = requestDone None threw (s\<lparr>requestCount := None\<rparr>)"
  by (cases "requestCount s") (simp_all add: pathDone_def)

lemma queueInvariant_pathDone:
  assumes "queueInvariant s"
  shows "queueInvariant (snd (pathDone err threw s))"
  using pathDone_cases [of err threw s]
proof
  assume "queueView (snd (pathDone err threw s)) = queueView s"
  from queueInvariant_cong [OF this] assms show ?thesis by simp
next
  have "queueView (s\<lparr>requestCount := None\<rparr>) = queueView s" by simp
  from queueInvariant_cong [OF this] assms have "queueInvariant (s\<lparr>requestCount := None\<rparr>)" by simp
  then have "queueInvariant (snd (requestDone None threw (s\<lparr>requestCount := None\<rparr>)))"
    by (rule queueInvariant_requestDone)
  moreover assume "pathDone err threw s = requestDone None threw (s\<lparr>requestCount := None\<rparr>)"
  ultimately show ?thesis by simp
qed

lemma submittedRequests_pathDone:
  "submittedRequests (snd (pathDone err threw s)) = submittedRequests s"
  using pathDone_cases [of err threw s]
proof
  assume "queueView (snd (pathDone err threw s)) = queueView s"
  then show ?thesis by (rule submittedRequests_cong)
next
  have "queueView (s\<lparr>requestCount := None\<rparr>) = queueView s" by simp
  then have "submittedRequests (s\<lparr>requestCount := None\<rparr>) = submittedRequests s"
    by (rule submittedRequests_cong)
  moreover assume "pathDone err threw s = requestDone None threw (s\<lparr>requestCount := None\<rparr>)"
  ultimately show ?thesis by (simp add: submittedRequests_requestDone)
qed

lemma queueInvariant_fold_watchOrUnwatchEntry:
  "queueInvariant s \<Longrightarrow>
     queueInvariant (fold (\<lambda>entry. watchOrUnwatchEntry entry r (cb entry) b) entries s)"
  by (induction entries arbitrary: s) (simp_all add: queueInvariant_watchOrUnwatchEntry)

lemma submittedRequests_fold_watchOrUnwatchEntry:
  "prefix (submittedRequests s)
     (submittedRequests (fold (\<lambda>entry. watchOrUnwatchEntry entry r (cb entry) b) entries s))"
proof (induction entries arbitrary: s)
  case Nil
  show ?case by simp
next
  case (Cons e entries)
  from submittedRequests_watchOrUnwatchEntry [of s e r "cb e" b]
    Cons [of "watchOrUnwatchEntry e r (cb e) b s"]
  show ?case by (auto intro: prefix_order.trans)
qed

lemma queueView_fold_clearCachedDataBelow:
  "queueView (fold clearCachedDataBelow entries s) = queueView s"
  by (induction entries arbitrary: s) simp_all

lemma contentsLoaded_cases:
  assumes "contentsLoaded k cs accepted s = Inr s'"
  shows "queueView s' = queueView s
     \<or> (\<exists>r added removed d.
           s' = fold (\<lambda>entry. watchOrUnwatchEntry entry r (UnwatchChildCb entry k) False) removed
                  (fold (\<lambda>entry. watchOrUnwatchEntry entry r (WatchChildCb k) True) added
                     (s\<lparr>directoryChanges := d\<rparr>)))"
  using assms
  by (auto simp add: contentsLoaded_def Let_def queueView_fold_clearCachedDataBelow
      split: option.splits directoryChange.splits if_splits)

lemma queueInvariant_contentsLoaded:
  assumes "queueInvariant s" and "contentsLoaded k cs accepted s = Inr s'"
  shows "queueInvariant s'"
  using contentsLoaded_cases [OF assms(2)]
proof
  assume "queueView s' = queueView s"
  from queueInvariant_cong [OF this] assms(1) show ?thesis by simp
next
  assume "\<exists>r added removed d.
           s' = fold (\<lambda>entry. watchOrUnwatchEntry entry r (UnwatchChildCb entry k) False) removed
                  (fold (\<lambda>entry. watchOrUnwatchEntry entry r (WatchChildCb k) True) added
                     (s\<lparr>directoryChanges := d\<rparr>))"
  then obtain r added removed d where
    s': "s' = fold (\<lambda>entry. watchOrUnwatchEntry entry r (UnwatchChildCb entry k) False) removed
                  (fold (\<lambda>entry. watchOrUnwatchEntry entry r (WatchChildCb k) True) added
                     (s\<lparr>directoryChanges := d\<rparr>))"
    by blast
  have "queueView (s\<lparr>directoryChanges := d\<rparr>) = queueView s" by simp
  from queueInvariant_cong [OF this] assms(1) have "queueInvariant (s\<lparr>directoryChanges := d\<rparr>)"
    by simp
  then have "queueInvariant (fold (\<lambda>entry. watchOrUnwatchEntry entry r (WatchChildCb k) True) added
                     (s\<lparr>directoryChanges := d\<rparr>))"
    by (rule queueInvariant_fold_watchOrUnwatchEntry)
  then show ?thesis unfolding s' by (rule queueInvariant_fold_watchOrUnwatchEntry)
qed

lemma submittedRequests_contentsLoaded:
  assumes "contentsLoaded k cs accepted s = Inr s'"
  shows "prefix (submittedRequests s) (submittedRequests s')"
  using contentsLoaded_cases [OF assms]
proof
  assume "queueView s' = queueView s"
  from submittedRequests_cong [OF this] show ?thesis by simp
next
  assume "\<exists>r added removed d.
           s' = fold (\<lambda>entry. watchOrUnwatchEntry entry r (UnwatchChildCb entry k) False) removed
                  (fold (\<lambda>entry. watchOrUnwatchEntry entry r (WatchChildCb k) True) added
                     (s\<lparr>directoryChanges := d\<rparr>))"
  then obtain r added removed d where
    s': "s' = fold (\<lambda>entry. watchOrUnwatchEntry entry r (UnwatchChildCb entry k) False) removed
                  (fold (\<lambda>entry. watchOrUnwatchEntry entry r (WatchChildCb k) True) added
                     (s\<lparr>directoryChanges := d\<rparr>))"
    by blast
  let ?s1 = "s\<lparr>directoryChanges := d\<rparr>"
  let ?s2 = "fold (\<lambda>entry. watchOrUnwatchEntry entry r (WatchChildCb k) True) added ?s1"
  have "queueView ?s1 = queueView s" by simp
  then have 1: "submittedRequests ?s1 = submittedRequests s" by (rule submittedRequests_cong)
  have 2: "prefix (submittedRequests ?s1) (submittedRequests ?s2)"
    by (rule submittedRequests_fold_watchOrUnwatchEntry)
  have 3: "prefix (submittedRequests ?s2) (submittedRequests s')"
    unfolding s' by (rule submittedRequests_fold_watchOrUnwatchEntry)
  from 2 3 have "prefix (submittedRequests ?s1) (submittedRequests s')"
    by (rule prefix_order.trans)
  then show ?thesis unfolding 1 .
qed

lemma queueView_getForPath:
  "queueView (perform (GetFileForPath p) s) = queueView s"
  "queueView (perform (GetDirectoryForPath p) s) = queueView s"
proof -
  show "queueView (perform (GetFileForPath p) s) = queueView s"
    by (cases "getEntryForPath File p s")
       (auto simp add: getFileForPath_def dest: queueView_getEntryForPath)
  show "queueView (perform (GetDirectoryForPath p) s) = queueView s"
    by (cases "getEntryForPath Directory p s")
       (auto simp add: getDirectoryForPath_def dest: queueView_getEntryForPath)
qed

lemma queueInvariant_perform: "queueInvariant s \<Longrightarrow> queueInvariant (perform call s)"
proof (cases call)
  case (GetFileForPath p)
  with queueInvariant_cong [OF queueView_getForPath(1), of p s] show "queueInvariant s \<Longrightarrow> ?thesis" by simp
next
  case (GetDirectoryForPath p)
  with queueInvariant_cong [OF queueView_getForPath(2), of p s] show "queueInvariant s \<Longrightarrow> ?thesis" by simp
next
  case (Watch e f c)
  then show "queueInvariant s \<Longrightarrow> ?thesis" by (simp add: queueInvariant_watch)
next
  case (Unwatch e c)
  then show "queueInvariant s \<Longrightarrow> ?thesis" by (simp add: queueInvariant_unwatch)
next
  case Close
  with queueInvariant_cong [OF queueView_close, of s] show "queueInvariant s \<Longrightarrow> ?thesis" by simp
next
  case BeginChange
  with queueInvariant_cong [OF queueView_beginChange, of s] show "queueInvariant s \<Longrightarrow> ?thesis" by simp
next
  case EndChange
  with queueInvariant_cong [OF queueView_endChange, of s] show "queueInvariant s \<Longrightarrow> ?thesis" by simp
next
  case (ExternalChange p st)
  with queueInvariant_cong [OF queueView_enqueueExternalChange, of p st s]
  show "queueInvariant s \<Longrightarrow> ?thesis" by simp
next
  case Offline
  then show "queueInvariant s \<Longrightarrow> ?thesis" by (simp add: queueInvariant_unwatchAll)
next
  case (RequestDone err threw)
  then show "queueInvariant s \<Longrightarrow> ?thesis" by (simp add: queueInvariant_requestDone)
next
  case (VisitDone err visited threw)
  then show "queueInvariant s \<Longrightarrow> ?thesis" by (simp add: queueInvariant_visitDone)
next
  case (PathDone err threw)
  then show "queueInvariant s \<Longrightarrow> ?thesis" by (simp add: queueInvariant_pathDone)
next
  case (ContentsLoaded k cs accepted)
  then show "queueInvariant s \<Longrightarrow> ?thesis"
    by (cases "contentsLoaded k cs accepted s") (simp_all add: queueInvariant_contentsLoaded)
next
  case (CacheContents e cs)
  with queueInvariant_cong [OF queueView_setContents, of e cs s]
  show "queueInvariant s \<Longrightarrow> ?thesis" by simp
qed

lemma submittedRequests_perform: "prefix (submittedRequests s) (submittedRequests (perform call s))"
proof (cases call)
  case (GetFileForPath p)
  with submittedRequests_cong [OF queueView_getForPath(1), of p s] show ?thesis by simp
next
  case (GetDirectoryForPath p)
  with submittedRequests_cong [OF queueView_getForPath(2), of p s] show ?thesis by simp
next
  case (Watch e f c)
  then show ?thesis by (simp add: submittedRequests_watch)
next
  case (Unwatch e c)
  then show ?thesis by (simp add: submittedRequests_unwatch)
next
  case Close
  with submittedRequests_cong [OF queueView_close, of s] show ?thesis by simp
next
  case BeginChange
  with submittedRequests_cong [OF queueView_beginChange, of s] show ?thesis by simp
next
  case EndChange
  with submittedRequests_cong [OF queueView_endChange, of s] show ?thesis by simp
next
  case (ExternalChange p st)
  with submittedRequests_cong [OF queueView_enqueueExternalChange, of p st s] show ?thesis by simp
next
  case Offline
  then show ?thesis by (simp add: submittedRequests_unwatchAll)
next
  case (RequestDone err threw)
  then show ?thesis by (simp add: submittedRequests_requestDone)
next
  case (VisitDone err visited threw)
  then show ?thesis by (simp add: submittedRequests_visitDone)
next
  case (PathDone err threw)
  then show ?thesis by (simp add: submittedRequests_pathDone)
next
  case (ContentsLoaded k cs accepted)
  then show ?thesis
    by (cases "contentsLoaded k cs accepted s") (simp_all add: submittedRequests_contentsLoaded)
next
  case (CacheContents e cs)
  with submittedRequests_cong [OF queueView_setContents, of e cs s] show ?thesis by simp
qed

lemma queueInvariant_new: "queueInvariant (newFileSystem recursive unc)"
  by (simp add: queueInvariant_def newFileSystem_def)

lemma queueInvariant_reachable:
  "queueInvariant s \<Longrightarrow> queueInvariant (fold perform calls s)"
  by (induction calls arbitrary: s) (simp_all add: queueInvariant_perform)

text \<open>
  Claim C8. The watch requests run one at a time, in the order they were submitted. In
  every state reached from a new FileSystem by any sequence of calls, the requests
  started and not completed are the head of the queue and nothing else
  (\<open>queueInvariant\<close>). Every call leaves the sequence of completed and pending requests
  as it is or extends it at the end. \<open>_enqueueWatchRequest\<close> starts the new request only
  when the queue was empty. When the backend applies the continuation of the head, the
  head is popped and the next request is started, and this is the same when the user
  callback raises: the exception leaves after the \<open>finally\<close> block.
\<close>

theorem watch_queue_serial:
  "queueInvariant (fold perform calls (newFileSystem recursive unc)) \<and>
   prefix (submittedRequests s) (submittedRequests (perform call s)) \<and>
   (watchRequests s \<noteq> [] \<longrightarrow>
      startedRequests (trace (enqueueWatchRequest r s)) = startedRequests (trace s) \<and>
      watchRequests (enqueueWatchRequest r s) = watchRequests s @ [r]) \<and>
   (watchRequests s = [] \<longrightarrow>
      startedRequests (trace (enqueueWatchRequest r s)) = startedRequests (trace s) @ [r] \<and>
      watchRequests (enqueueWatchRequest r s) = [r]) \<and>
   (watchRequests s = request # rest \<longrightarrow>
      requestDone err True s = (True, snd (requestDone err False s)) \<and>
      watchRequests (snd (requestDone err True s)) = rest \<and>
      completedRequests (trace (snd (requestDone err True s))) = completedRequests (trace s) @ [request] \<and>
      startedRequests (trace (snd (requestDone err True s))) = startedRequests (trace s) @ take 1 rest)"
proof (intro conjI impI)
  show "queueInvariant (fold perform calls (newFileSystem recursive unc))"
    using queueInvariant_new by (rule queueInvariant_reachable)
  show "prefix (submittedRequests s) (submittedRequests (perform call s))"
    by (rule submittedRequests_perform)
next
  assume "watchRequests s \<noteq> []"
  with queueView_enqueueWatchRequest [of r s]
  show "startedRequests (trace (enqueueWatchRequest r s)) = startedRequests (trace s)"
    and "watchRequests (enqueueWatchRequest r s) = watchRequests s @ [r]"
    by (simp_all add: queueView_def)
next
  assume "watchRequests s = []"
  with queueView_enqueueWatchRequest [of r s]
  show "startedRequests (trace (enqueueWatchRequest r s)) = startedRequests (trace s) @ [r]"
    and "watchRequests (enqueueWatchRequest r s) = [r]"
    by (simp_all add: queueView_def)
next
  assume q: "watchRequests s = request # rest"
  then show "requestDone err True s = (True, snd (requestDone err False s))"
    by (simp add: requestDone_def requestContinuation_def Let_def)
  from queueView_requestDone [OF q, of err True]
  show "watchRequests (snd (requestDone err True s)) = rest"
    and "completedRequests (trace (snd (requestDone err True s))) = completedRequests (trace s) @ [request]"
    and "startedRequests (trace (snd (requestDone err True s))) = startedRequests (trace s) @ take 1 rest"
    by (simp_all add: queueView_def)
qed

text \<open>An instance: two requests are enqueued on the idle queue of \<open>projWatched\<close>; the first
  starts at once, the second when the first completes with a raising callback.\<close>

theorem watch_queue_serial_witness:
  "watchRequests projWatched = [] \<and>
   watchRequests (enqueueWatchRequest (Request False projDir (UnwatchRootCb projDir (Some 5))) projWatched)
     = [Request False projDir (UnwatchRootCb projDir (Some 5))] \<and>
   watchRequests (enqueueWatchRequest (Request True rootDir (WatchRootCb rootDir 9 None))
       (enqueueWatchRequest (Request False projDir (UnwatchRootCb projDir (Some 5))) projWatched))
     = [Request False projDir (UnwatchRootCb projDir (Some 5)),
        Request True rootDir (WatchRootCb rootDir 9 None)] \<and>
   startedRequests (trace (enqueueWatchRequest (Request True rootDir (WatchRootCb rootDir 9 None))
       (enqueueWatchRequest (Request False projDir (UnwatchRootCb projDir (Some 5))) projWatched)))
     = startedRequests (trace projWatched) @ [Request False projDir (UnwatchRootCb projDir (Some 5))] \<and>
   fst (requestDone (Some ''boom'') True
         (enqueueWatchRequest (Request True rootDir (WatchRootCb rootDir 9 None))
           (enqueueWatchRequest (Request False projDir (UnwatchRootCb projDir (Some 5))) projWatched))) \<and>
   watchRequests (snd (requestDone (Some ''boom'') True
         (enqueueWatchRequest (Request True rootDir (WatchRootCb rootDir 9 None))
           (enqueueWatchRequest (Request False projDir (UnwatchRootCb projDir (Some 5))) projWatched))))
     = [Request True rootDir (WatchRootCb rootDir 9 None)] \<and>
   startedRequests (trace (snd (requestDone (Some ''boom'') True
         (enqueueWatchRequest (Request True rootDir (WatchRootCb rootDir 9 None))
           (enqueueWatchRequest (Request False projDir (UnwatchRootCb projDir (Some 5))) projWatched)))))
     = startedRequests (trace projWatched) @ [Request False projDir (UnwatchRootCb projDir (Some 5)),
        Request True rootDir (WatchRootCb rootDir 9 None)]"
proof -
  let ?r1 = "Request False projDir (UnwatchRootCb projDir (Some 5)) :: nat request"
  let ?r2 = "Request True rootDir (WatchRootCb rootDir 9 None) :: nat request"
  let ?s1 = "enqueueWatchRequest ?r1 projWatched"
  let ?s2 = "enqueueWatchRequest ?r2 ?s1"
  have h0: "watchRequests projWatched = []" by (simp add: projWatched_eq)
  from watch_queue_serial [where s = projWatched and r = ?r1 and calls = "[] :: (unit, nat) call list" and recursive = True and unc = False and call = Close] h0
  have a1: "startedRequests (trace ?s1) = startedRequests (trace projWatched) @ [?r1]"
    and q1: "watchRequests ?s1 = [?r1]" by simp_all
  then have h1: "watchRequests ?s1 \<noteq> []" by simp
  from watch_queue_serial [where s = ?s1 and r = ?r2 and calls = "[] :: (unit, nat) call list" and recursive = True and unc = False and call = Close] h1 q1 a1
  have a2: "startedRequests (trace ?s2) = startedRequests (trace projWatched) @ [?r1]"
    and q2: "watchRequests ?s2 = [?r1, ?r2]" by simp_all
  note fin = watch_queue_serial [where s = ?s2 and request = ?r1 and rest = "[?r2]" and err = "Some ''boom''"
      and r = ?r1 and calls = "[] :: (unit, nat) call list" and recursive = True and unc = False and call = Close,
      THEN conjunct2, THEN conjunct2, THEN conjunct2, THEN conjunct2, THEN mp, OF q2]
  from fin have d: "requestDone (Some ''boom'') True ?s2 = (True, snd (requestDone (Some ''boom'') False ?s2))"
    by (rule conjunct1)
  from fin have q3: "watchRequests (snd (requestDone (Some ''boom'') True ?s2)) = [?r2]"
    by (elim conjE)
  from fin have "startedRequests (trace (snd (requestDone (Some ''boom'') True ?s2)))
        = startedRequests (trace ?s2) @ take 1 [?r2]"
    by (elim conjE)
  then have a3: "startedRequests (trace (snd (requestDone (Some ''boom'') True ?s2)))
        = startedRequests (trace projWatched) @ [?r1, ?r2]"
    unfolding a2 by simp
  from d have f: "fst (requestDone (Some ''boom'') True ?s2)" by simp
  from h0 q1 q2 a2 f q3 a3 show ?thesis by (intro conjI)
qed


subsection \<open>The change coordinator\<close>

lemma changeEvents_append [simp]:
  "changeEvents (xs @ ys) = changeEvents xs @ changeEvents ys"
  by (induction xs rule: changeEvents.induct) simp_all

lemma normalizeUNCPaths_visitAll:
  "(\<And>child s. normalizeUNCPaths (visitor child s) = normalizeUNCPaths s) \<Longrightarrow>
     normalizeUNCPaths (visitAll visitor idx s) = normalizeUNCPaths s"
  unfolding visitAll_def by (induction idx arbitrary: s) auto

lemma normalizeUNCPaths_handleExternalChange:
  "handleExternalChange path st s = Inr s1 \<Longrightarrow> normalizeUNCPaths s1 = normalizeUNCPaths s"
  by (auto simp add: handleExternalChange_def handleDirectoryChange_def emit_def setStat_def
      clearCachedData_def Let_def normalizeUNCPaths_visitAll
      split: if_splits sum.splits option.splits)

lemma handleExternalChange_accepted:
  "acceptedChange (normalizeUNCPaths s) (path, st) \<Longrightarrow> \<exists>s1. handleExternalChange path st s = Inr s1"
  by (auto simp add: handleExternalChange_def acceptedChange_def split: sum.splits option.splits)

lemma forEachExternalChange_accepted:
  "list_all (acceptedChange (normalizeUNCPaths s)) infos \<Longrightarrow>
     \<exists>s'. forEachExternalChange infos s = (None, s') \<and> handledInOrder infos s s'"
proof (induction infos arbitrary: s)
  case Nil
  show ?case by (simp add: handledNil)
next
  case (Cons info infos)
  obtain path st where info: "info = (path, st)" by (cases info)
  from Cons.prems info have a: "acceptedChange (normalizeUNCPaths s) (path, st)"
    and r: "list_all (acceptedChange (normalizeUNCPaths s)) infos" by simp_all
  from handleExternalChange_accepted [OF a] obtain s1 where h: "handleExternalChange path st s = Inr s1"
    by blast
  from normalizeUNCPaths_handleExternalChange [OF h] r
  have "list_all (acceptedChange (normalizeUNCPaths s1)) infos" by simp
  from Cons.IH [OF this] obtain s' where f: "forEachExternalChange infos s1 = (None, s')"
    and o: "handledInOrder infos s1 s'" by blast
  from h o have "handledInOrder ((path, st) # infos) s s'" by (rule handledCons)
  with f h info show ?case by simp
qed

lemma triggerExternalChangesNow_accepted:
  assumes "list_all (acceptedChange (normalizeUNCPaths s)) (externalChanges s)"
  shows "\<exists>s'. handledInOrder (externalChanges s) s s' \<and>
     triggerExternalChangesNow s = (None, s'\<lparr>externalChanges := []\<rparr>)"
proof -
  from forEachExternalChange_accepted [OF assms] obtain s'
    where "forEachExternalChange (externalChanges s) s = (None, s')"
      and "handledInOrder (externalChanges s) s s'" by blast
  then show ?thesis by (auto simp add: triggerExternalChangesNow_def)
qed


text \<open>
  Claim C2, as amended. While \<open>activeChangeCount\<close> is positive, \<open>_enqueueExternalChange\<close>
  appends the change to the queue and does nothing else, so no event is triggered. When
  \<open>_endChange\<close> brings the count from one to zero, the queued changes are handled by
  \<open>_handleExternalChange\<close> one after the other in the order of arrival, and the queue is
  emptied; when the count is zero, \<open>_enqueueExternalChange\<close> does the same at once. Both
  are stated for queued changes whose path is falsy or accepted by \<open>_normalizePath\<close>;
  nothing is said for a queue in which \<open>_normalizePath\<close> raises. In the scenario, with
  the count at zero and the queue empty, after \<open>_beginChange\<close> and one change enqueued
  for an indexed file no \<open>change\<close> event was triggered, and \<open>_endChange\<close> triggers exactly
  one, for that file, unless the change comes with a stat whose \<open>mtime\<close> is the one of the
  cached stat of the file: then it triggers none.
\<close>

theorem change_coordinator:
  "(0 < activeChangeCount s \<longrightarrow>
      enqueueExternalChange path st s
        = (None, s\<lparr>externalChanges := externalChanges s @ [(path, st)]\<rparr>)) \<and>
   (activeChangeCount s = 1 \<and>
    list_all (acceptedChange (normalizeUNCPaths s)) (externalChanges s) \<longrightarrow>
      (\<exists>s'. handledInOrder (externalChanges s) (s\<lparr>activeChangeCount := 0\<rparr>) s' \<and>
            endChange s = (None, s'\<lparr>externalChanges := []\<rparr>))) \<and>
   (activeChangeCount s = 0 \<and>
    list_all (acceptedChange (normalizeUNCPaths s)) (externalChanges s @ [(path, st)]) \<longrightarrow>
      (\<exists>s'. handledInOrder (externalChanges s @ [(path, st)])
              (s\<lparr>externalChanges := externalChanges s @ [(path, st)]\<rparr>) s' \<and>
            enqueueExternalChange path st s = (None, s'\<lparr>externalChanges := []\<rparr>))) \<and>
   (activeChangeCount s = 0 \<and> externalChanges s = [] \<and>
    normalizePath (normalizeUNCPaths s) p False = Inr q \<and>
    getEntry (index s) q = Some entry \<and> isFile entry \<longrightarrow>
      changeEvents (trace (snd (enqueueExternalChange (Some p) st (beginChange s))))
        = changeEvents (trace s) \<and>
      changeEvents (trace (snd (endChange (snd (enqueueExternalChange (Some p) st (beginChange s))))))
        = changeEvents (trace s) @
            (if sameMtime st (stat (entryData s (eid entry))) then [] else [Some entry]))"
proof (intro conjI impI)
  assume "0 < activeChangeCount s"
  then show "enqueueExternalChange path st s
        = (None, s\<lparr>externalChanges := externalChanges s @ [(path, st)]\<rparr>)"
    by (simp add: enqueueExternalChange_def Let_def)
next
  assume a: "activeChangeCount s = 1 \<and>
    list_all (acceptedChange (normalizeUNCPaths s)) (externalChanges s)"
  let ?s1 = "s\<lparr>activeChangeCount := 0\<rparr>"
  from a have e: "endChange s = triggerExternalChangesNow ?s1"
    by (simp add: endChange_def Let_def)
  from a have "list_all (acceptedChange (normalizeUNCPaths ?s1)) (externalChanges ?s1)" by simp
  from triggerExternalChangesNow_accepted [OF this]
  show "\<exists>s'. handledInOrder (externalChanges s) ?s1 s' \<and>
            endChange s = (None, s'\<lparr>externalChanges := []\<rparr>)"
    unfolding e by simp
next
  assume a: "activeChangeCount s = 0 \<and>
    list_all (acceptedChange (normalizeUNCPaths s)) (externalChanges s @ [(path, st)])"
  let ?s1 = "s\<lparr>externalChanges := externalChanges s @ [(path, st)]\<rparr>"
  from a have e: "enqueueExternalChange path st s = triggerExternalChangesNow ?s1"
    by (simp add: enqueueExternalChange_def Let_def)
  from a have "list_all (acceptedChange (normalizeUNCPaths ?s1)) (externalChanges ?s1)" by simp
  from triggerExternalChangesNow_accepted [OF this]
  show "\<exists>s'. handledInOrder (externalChanges s @ [(path, st)]) ?s1 s' \<and>
            enqueueExternalChange path st s = (None, s'\<lparr>externalChanges := []\<rparr>)"
    unfolding e by simp
next
  assume a: "activeChangeCount s = 0 \<and> externalChanges s = [] \<and>
    normalizePath (normalizeUNCPaths s) p False = Inr q \<and>
    getEntry (index s) q = Some entry \<and> isFile entry"
  let ?s2 = "s\<lparr>externalChanges := [(Some p, st)], activeChangeCount := 1\<rparr>"
  let ?s3 = "s\<lparr>externalChanges := [(Some p, st)], activeChangeCount := 0\<rparr>"
  from a have n: "normalizePath (normalizeUNCPaths s) p False = Inr q" by simp
  have p: "truthy (Some p)"
  proof -
    have "normalizePath (normalizeUNCPaths s) [] False \<noteq> Inr q"
      by (simp add: normalizePath_def isAbsolutePath_def charAt_def)
    with n have "p \<noteq> []" by auto
    then show ?thesis by (simp add: truthy_def)
  qed
  from a have q: "snd (enqueueExternalChange (Some p) st (beginChange s)) = ?s2"
    by (simp add: enqueueExternalChange_def beginChange_def Let_def)
  show "changeEvents (trace (snd (enqueueExternalChange (Some p) st (beginChange s))))
        = changeEvents (trace s)"
    unfolding q by simp
  have h: "handleExternalChange (Some p) st ?s3 =
      Inr (if sameMtime st (stat (entryData s (eid entry))) then ?s3
           else emit (ChangeEvent (Some entry)) (setStat entry st (clearCachedData entry ?s3)))"
    using a p by (simp add: handleExternalChange_def)
  have e: "endChange ?s2 = triggerExternalChangesNow ?s3"
    by (simp add: endChange_def Let_def)
  show "changeEvents (trace (snd (endChange (snd (enqueueExternalChange (Some p) st (beginChange s))))))
        = changeEvents (trace s) @
            (if sameMtime st (stat (entryData s (eid entry))) then [] else [Some entry])"
    unfolding q e
    by (simp add: triggerExternalChangesNow_def h emit_def setStat_def clearCachedData_def)
qed

lemma getFileForPath_file:
  "getFileForPath ''/p/f.txt'' (newFileSystem True False :: (unit, nat) fileSystem)
     = Inr (\<lparr>eid = 0, fullPath = ''/p/f.txt'', constructedBy = File\<rparr>,
            (newFileSystem True False)
              \<lparr>index := [(''/p/f.txt'', \<lparr>eid = 0, fullPath = ''/p/f.txt'', constructedBy = File\<rparr>)],
               nextId := 1\<rparr>)"
  by (simp add: getFileForPath_def getEntryForPath_def normalizePath_def isAbsolutePath_def
      charAt_def startsWithDuplicatedSlash_def Let_def newFileSystem_def getEntry_def addEntry_def)

lemma normalizePath_file: "normalizePath False ''/p/f.txt'' False = Inr ''/p/f.txt''"
  by (simp add: normalizePath_def isAbsolutePath_def charAt_def startsWithDuplicatedSlash_def Let_def)

lemma fileChanged_eq:
  "fileChanged =
     \<lparr>recursiveWatch = True, normalizeUNCPaths = False,
      index = [(''/p/f.txt'', \<lparr>eid = 0, fullPath = ''/p/f.txt'', constructedBy = File\<rparr>)],
      entryData = (\<lambda>_. noCachedData)(0 := \<lparr>stat = Some fileStat, contents = None\<rparr>),
      watchedRoots = [], watchRequests = [], requestCount = None, directoryChanges = [],
      externalChanges = [], activeChangeCount = 0, nextId = 1,
      trace = [ChangeEvent (Some \<lparr>eid = 0, fullPath = ''/p/f.txt'', constructedBy = File\<rparr>)]\<rparr>"
proof -
  let ?f = "\<lparr>eid = 0, fullPath = ''/p/f.txt'', constructedBy = File\<rparr>"
  let ?s1 = "(newFileSystem True False :: (unit, nat) fileSystem)\<lparr>index := [(''/p/f.txt'', ?f)], nextId := 1\<rparr>"
  have 1: "perform (GetFileForPath ''/p/f.txt'') (newFileSystem True False :: (unit, nat) fileSystem) = ?s1"
    by (simp add: getFileForPath_file)
  have 2: "perform (ExternalChange (Some ''/p/f.txt'') (Some fileStat)) ?s1 =
     \<lparr>recursiveWatch = True, normalizeUNCPaths = False,
      index = [(''/p/f.txt'', ?f)],
      entryData = (\<lambda>_. noCachedData)(0 := \<lparr>stat = Some fileStat, contents = None\<rparr>),
      watchedRoots = [], watchRequests = [], requestCount = None, directoryChanges = [],
      externalChanges = [], activeChangeCount = 0, nextId = 1,
      trace = [ChangeEvent (Some ?f)]\<rparr>"
    by (simp add: enqueueExternalChange_def triggerExternalChangesNow_def
        handleExternalChange_def truthy_def normalizePath_file getEntry_def isFile_def sameMtime_def
        emit_def setStat_def clearCachedData_def Let_def newFileSystem_def noCachedData_def fun_eq_iff)
  show ?thesis
    unfolding fileChanged_def by (simp only: fold_simps id_apply comp_apply 1 2)
qed

text \<open>
  Claim C2 as stated fails: \<open>/p/f.txt\<close> is an indexed file whose cached stat has the
  \<open>mtime\<close> of \<open>fileStat\<close>. After \<open>_beginChange\<close> and an external change for \<open>/p/f.txt\<close> with
  the stat \<open>fileStat\<close> no event was triggered, and \<open>_endChange\<close> handles the change and
  empties the queue but triggers no event either.
\<close>

theorem change_deduplicated:
  "activeChangeCount fileChanged = 0 \<and> externalChanges fileChanged = [] \<and>
   index fileChanged = [(''/p/f.txt'', \<lparr>eid = 0, fullPath = ''/p/f.txt'', constructedBy = File\<rparr>)] \<and>
   changeEvents (trace (fold perform
       [BeginChange, ExternalChange (Some ''/p/f.txt'') (Some fileStat)] fileChanged))
     = changeEvents (trace fileChanged) \<and>
   changeEvents (trace (fold perform
       [BeginChange, ExternalChange (Some ''/p/f.txt'') (Some fileStat), EndChange] fileChanged))
     = changeEvents (trace fileChanged) \<and>
   externalChanges (fold perform
       [BeginChange, ExternalChange (Some ''/p/f.txt'') (Some fileStat), EndChange] fileChanged) = []"
  by (simp add: fileChanged_eq beginChange_def enqueueExternalChange_def endChange_def
      triggerExternalChangesNow_def handleExternalChange_def truthy_def normalizePath_file
      getEntry_def isFile_def sameMtime_def fileStat_def Let_def)


text \<open>An instance: the file \<open>/p/f.txt\<close> is in the index with a cached stat. A change is
  enqueued between \<open>_beginChange\<close> and \<open>_endChange\<close>, and one while the count is zero; a
  change with a later \<open>mtime\<close> triggers one event at \<open>_endChange\<close>.\<close>

theorem change_coordinator_witness:
  "0 < activeChangeCount (beginChange fileChanged) \<and>
   enqueueExternalChange (Some ''/p/f.txt'') (Some fileStat) (beginChange fileChanged)
     = (None, (beginChange fileChanged)\<lparr>externalChanges := [(Some ''/p/f.txt'', Some fileStat)]\<rparr>) \<and>
   activeChangeCount ((beginChange fileChanged)\<lparr>externalChanges := [(Some ''/p/f.txt'', Some fileStat)]\<rparr>) = 1 \<and>
   list_all (acceptedChange False) [(Some ''/p/f.txt'', Some fileStat)] \<and>
   fst (endChange ((beginChange fileChanged)\<lparr>externalChanges := [(Some ''/p/f.txt'', Some fileStat)]\<rparr>)) = None \<and>
   externalChanges (snd (endChange
       ((beginChange fileChanged)\<lparr>externalChanges := [(Some ''/p/f.txt'', Some fileStat)]\<rparr>))) = [] \<and>
   activeChangeCount fileChanged = 0 \<and> externalChanges fileChanged = [] \<and>
   fst (enqueueExternalChange (Some ''/p/f.txt'') (Some fileStat) fileChanged) = None \<and>
   externalChanges (snd (enqueueExternalChange (Some ''/p/f.txt'') (Some fileStat) fileChanged)) = [] \<and>
   normalizePath False ''/p/f.txt'' False = Inr ''/p/f.txt'' \<and>
   getEntry (index fileChanged) ''/p/f.txt''
     = Some \<lparr>eid = 0, fullPath = ''/p/f.txt'', constructedBy = File\<rparr> \<and>
   isFile \<lparr>eid = 0, fullPath = ''/p/f.txt'', constructedBy = File\<rparr> \<and>
   \<not> sameMtime (Some \<lparr>mtime = Some 6, size' = 1\<rparr>) (stat (entryData fileChanged 0)) \<and>
   changeEvents (trace (snd (endChange (snd (enqueueExternalChange (Some ''/p/f.txt'')
       (Some \<lparr>mtime = Some 6, size' = 1\<rparr>) (beginChange fileChanged))))))
     = changeEvents (trace fileChanged)
       @ [Some \<lparr>eid = 0, fullPath = ''/p/f.txt'', constructedBy = File\<rparr>]"
proof -
  let ?f = "\<lparr>eid = 0, fullPath = ''/p/f.txt'', constructedBy = File\<rparr>"
  let ?c = "(Some ''/p/f.txt'', Some fileStat)"
  let ?b = "beginChange fileChanged"
  let ?t = "?b\<lparr>externalChanges := [?c]\<rparr>"
  let ?st = "Some \<lparr>mtime = Some 6, size' = 1\<rparr>"
  have a1: "0 < activeChangeCount ?b" by (simp add: beginChange_def fileChanged_eq)
  have a2: "activeChangeCount ?t = 1" by (simp add: beginChange_def fileChanged_eq)
  have a3: "list_all (acceptedChange False) [?c]"
    by (simp add: acceptedChange_def truthy_def normalizePath_file)
  have a4: "activeChangeCount fileChanged = 0" "externalChanges fileChanged = []"
    "normalizeUNCPaths fileChanged = False" "externalChanges ?b = []"
    by (simp_all add: fileChanged_eq beginChange_def)
  have a5: "normalizePath False ''/p/f.txt'' False = Inr ''/p/f.txt''" by (rule normalizePath_file)
  have a6: "getEntry (index fileChanged) ''/p/f.txt'' = Some ?f" "isFile ?f"
    by (simp_all add: fileChanged_eq getEntry_def isFile_def)
  have a7: "\<not> sameMtime ?st (stat (entryData fileChanged 0))"
    by (simp add: fileChanged_eq sameMtime_def fileStat_def)
  note i1 = change_coordinator [where s = ?b and path = "Some ''/p/f.txt''" and st = "Some fileStat"
      and p = "''/p/f.txt''" and q = "''/p/f.txt''" and entry = ?f, THEN conjunct1, THEN mp, OF a1]
  have c1: "enqueueExternalChange (Some ''/p/f.txt'') (Some fileStat) ?b = (None, ?t)"
    using i1 a4 by simp
  have h2: "activeChangeCount ?t = 1 \<and>
      list_all (acceptedChange (normalizeUNCPaths ?t)) (externalChanges ?t)"
    using a2 a3 a4 by (simp add: beginChange_def)
  note i2 = change_coordinator [where s = ?t and path = "Some ''/p/f.txt''" and st = "Some fileStat"
      and p = "''/p/f.txt''" and q = "''/p/f.txt''" and entry = ?f,
      THEN conjunct2, THEN conjunct1, THEN mp, OF h2]
  then obtain s' where "endChange ?t = (None, s'\<lparr>externalChanges := []\<rparr>)" by blast
  then have c2: "fst (endChange ?t) = None" "externalChanges (snd (endChange ?t)) = []" by simp_all
  have h3: "activeChangeCount fileChanged = 0 \<and>
      list_all (acceptedChange (normalizeUNCPaths fileChanged)) (externalChanges fileChanged @ [?c])"
    using a3 a4 by simp
  note i3 = change_coordinator [where s = fileChanged and path = "Some ''/p/f.txt''" and st = "Some fileStat"
      and p = "''/p/f.txt''" and q = "''/p/f.txt''" and entry = ?f,
      THEN conjunct2, THEN conjunct2, THEN conjunct1, THEN mp, OF h3]
  then obtain s' where "enqueueExternalChange (Some ''/p/f.txt'') (Some fileStat) fileChanged
      = (None, s'\<lparr>externalChanges := []\<rparr>)" by blast
  then have c3: "fst (enqueueExternalChange (Some ''/p/f.txt'') (Some fileStat) fileChanged) = None"
    "externalChanges (snd (enqueueExternalChange (Some ''/p/f.txt'') (Some fileStat) fileChanged)) = []"
    by simp_all
  have h4: "activeChangeCount fileChanged = 0 \<and> externalChanges fileChanged = [] \<and>
      normalizePath (normalizeUNCPaths fileChanged) ''/p/f.txt'' False = Inr ''/p/f.txt'' \<and>
      getEntry (index fileChanged) ''/p/f.txt'' = Some ?f \<and> isFile ?f"
    using a4 a5 a6 by simp
  note i4 = change_coordinator [where s = fileChanged and path = "Some ''/p/f.txt''" and st = ?st
      and p = "''/p/f.txt''" and q = "''/p/f.txt''" and entry = ?f,
      THEN conjunct2, THEN conjunct2, THEN conjunct2, THEN mp, OF h4, THEN conjunct2]
  have c4: "changeEvents (trace (snd (endChange (snd (enqueueExternalChange (Some ''/p/f.txt'')
       ?st (beginChange fileChanged))))))
     = changeEvents (trace fileChanged) @ [Some ?f]"
    using i4 a7 by simp
  from a1 c1 a2 a3 c2 a4(1,2) c3 a5 a6 a7 c4 show ?thesis by (intro conjI)
qed

end
